theory Spec2Isabelle
  imports Main "HOL-Library.Sublist"
begin

section \<open>The data model of \<open>skip_list.py\<close>\<close>

text \<open>
  Python objects are shared and mutated in place: a \<open>SkipNode\<close> is referenced from up to one
  predecessor per level, and \<open>insert\<close> and \<open>delete\<close> rewire those references. The model
  therefore keeps the nodes in an explicit store, addressed by natural numbers. A reference to a node
  is an address, \<open>None\<close> is the Python \<open>None\<close>.
\<close>

type_synonym addr = nat

datatype 'k exn = KeyError 'k | TypeError | ValueError

text \<open>\<open>class Pair\<close>: the field \<open>value\<close> is called \<open>val\<close> here.\<close>

record ('k, 'v) Pair =
  key :: 'k
  val :: 'v

text \<open>
  \<open>class SkipNode\<close>: the dictionary \<open>next\<close> (called \<open>nxt\<close> here) maps a level to a
  reference or to \<open>None\<close>; a level that is no key of the dictionary is a third case. The sentinel
  is built as \<open>SkipNode(Pair(None, None), ...)\<close>: its pair is modelled by \<open>None\<close>, and
  comparing a key with it raises \<open>TypeError\<close>, as \<open>k < None\<close> does.
\<close>

record ('k, 'v) SkipNode =
  pair :: "('k, 'v) Pair option"
  nxt :: "nat \<rightharpoonup> addr option"

text \<open>The property \<open>SkipNode.level\<close>: \<open>max(self.next.keys())\<close>, which raises on an empty dictionary.\<close>

definition node_level :: "('k, 'v) SkipNode \<Rightarrow> 'k exn + nat" where
  "node_level n = (if dom (nxt n) = {} then Inl ValueError else Inr (Max (dom (nxt n))))"

text \<open>\<open>d.get(i)\<close>: \<open>None\<close> when \<open>i\<close> is no key, the stored reference (or \<open>None\<close>) otherwise.\<close>

definition get :: "(nat \<rightharpoonup> addr option) \<Rightarrow> nat \<Rightarrow> addr option" where
  "get d i = (case d i of None \<Rightarrow> None | Some r \<Rightarrow> r)"

text \<open>The store: the node at every address, and the next address never handed out.\<close>

type_synonym ('k, 'v) cells = "addr \<Rightarrow> ('k, 'v) SkipNode"

record ('k, 'v) heap =
  cells :: "('k, 'v) cells"
  free :: addr

text \<open>
  \<open>class SkipList\<close>: \<open>head\<close> is a reference. \<open>level\<close> is a natural number: it starts at a level
  the caller gives and is only ever replaced by a result of \<open>get_level\<close>, which counts up from 0.
  \<open>size\<close> (called \<open>size_sl\<close> here, \<open>size\<close> being a constant of HOL) is a Python integer,
  which \<open>delete\<close> decrements.
\<close>

record SkipList =
  head :: addr
  level :: nat
  size_sl :: int

text \<open>\<open>__len__\<close>\<close>

definition len :: "SkipList \<Rightarrow> int" where
  "len sl = size_sl sl"

text \<open>\<open>x.next[i] = r\<close>\<close>

definition set_next :: "('k, 'v) cells \<Rightarrow> addr \<Rightarrow> nat \<Rightarrow> addr option \<Rightarrow> ('k, 'v) cells" where
  "set_next c x i r = c(x := (c x)\<lparr>nxt := (nxt (c x))(i \<mapsto> r)\<rparr>)"

section \<open>Lookup\<close>

text \<open>
  The inner \<open>while True\<close> of \<open>__getitem__\<close> at level \<open>i\<close>, from node \<open>x\<close>. It may not return
  (a cyclic chain of smaller keys), which is the result \<open>None\<close>. Otherwise it breaks at a node,
  returns a value from the method, or raises.
\<close>

datatype ('k, 'v) ctl = Break addr | Return 'v | Raise "'k exn"

partial_function (option) getitem_while ::
  "('k::linorder, 'v) cells \<Rightarrow> 'k \<Rightarrow> nat \<Rightarrow> addr \<Rightarrow> ('k, 'v) ctl option" where
  "getitem_while c k i x =
     (case get (nxt (c x)) i of
        None \<Rightarrow> Some (Break x)
      | Some y \<Rightarrow>
          (case pair (c y) of
             None \<Rightarrow> Some (Raise TypeError)
           | Some p \<Rightarrow>
               if k < key p then Some (Break x)
               else if key p = k then Some (Return (val p))
               else getitem_while c k i y))"

text \<open>\<open>for i in range(self.level, -1, -1)\<close>, from level \<open>i\<close> down to 0, then \<open>raise KeyError(k)\<close>.\<close>

fun getitem_for :: "('k::linorder, 'v) cells \<Rightarrow> 'k \<Rightarrow> nat \<Rightarrow> addr \<Rightarrow> ('k exn + 'v) option" where
  "getitem_for c k i x =
     (case getitem_while c k i x of
        None \<Rightarrow> None
      | Some (Raise e) \<Rightarrow> Some (Inl e)
      | Some (Return v) \<Rightarrow> Some (Inr v)
      | Some (Break x') \<Rightarrow>
          (case i of 0 \<Rightarrow> Some (Inl (KeyError k)) | Suc j \<Rightarrow> getitem_for c k j x'))"

text \<open>\<open>__getitem__\<close>, on the store and the list record.\<close>

definition getitem :: "('k::linorder, 'v) heap \<times> SkipList \<Rightarrow> 'k \<Rightarrow> ('k exn + 'v) option" where
  "getitem = (\<lambda>(H, sl) k. getitem_for (cells H) k (level sl) (head sl))"

section \<open>Insertion\<close>

text \<open>The \<open>while\<close> of \<open>insert\<close> at level \<open>i\<close>: the node it stops at.\<close>

partial_function (option) insert_while ::
  "('k::linorder, 'v) cells \<Rightarrow> 'k \<Rightarrow> nat \<Rightarrow> addr \<Rightarrow> ('k exn + addr) option" where
  "insert_while c k i x =
     (case get (nxt (c x)) i of
        None \<Rightarrow> Some (Inr x)
      | Some y \<Rightarrow>
          (case pair (c y) of
             None \<Rightarrow> Some (Inl TypeError)
           | Some p \<Rightarrow> if key p < k then insert_while c k i y else Some (Inr x)))"

text \<open>
  \<open>for i in range(new_level, -1, -1)\<close>: the walk, then \<open>new_node.next[i] = x.next.get(i)\<close> and
  \<open>x.next[i] = new_node\<close>, in this order.
\<close>

fun insert_for ::
  "addr \<Rightarrow> 'k::linorder \<Rightarrow> nat \<Rightarrow> ('k, 'v) cells \<Rightarrow> addr \<Rightarrow> ('k exn + ('k, 'v) cells) option" where
  "insert_for new k i c x =
     (case insert_while c k i x of
        None \<Rightarrow> None
      | Some (Inl e) \<Rightarrow> Some (Inl e)
      | Some (Inr x') \<Rightarrow>
          (let c1 = set_next c new i (get (nxt (c x')) i);
               c2 = set_next c1 x' i (Some new)
           in case i of 0 \<Rightarrow> Some (Inr c2) | Suc j \<Rightarrow> insert_for new k j c2 x'))"

text \<open>
  \<open>insert\<close> (called \<open>insert_key\<close> here, \<open>insert\<close> being a constant of HOL); the first argument
  is what \<open>self.get_level()\<close> returned, the number of times its coin came up \<open>True\<close>. The new
  node is allocated at the free address. A raised exception is the result, the half-updated store is
  not kept.
\<close>

definition insert_key ::
  "nat \<Rightarrow> 'k::linorder \<Rightarrow> 'v \<Rightarrow> ('k, 'v) heap \<times> SkipList \<Rightarrow> ('k exn + ('k, 'v) heap \<times> SkipList) option" where
  "insert_key new_level k v = (\<lambda>(H, sl).
     let sl1 = (if new_level > level sl then sl\<lparr>level := new_level\<rparr> else sl);
         new = free H;
         c0 = (cells H)(new := \<lparr>pair = Some \<lparr>key = k, val = v\<rparr>, nxt = Map.empty\<rparr>)
     in case insert_for new k new_level c0 (head sl1) of
          None \<Rightarrow> None
        | Some (Inl e) \<Rightarrow> Some (Inl e)
        | Some (Inr c') \<Rightarrow> Some (Inr (\<lparr>cells = c', free = Suc new\<rparr>, sl1\<lparr>size_sl := size_sl sl1 + 1\<rparr>)))"

section \<open>Deletion\<close>

text \<open>
  The \<open>while True\<close> of \<open>delete\<close> at level \<open>i\<close>: it rewires \<open>x.next[i]\<close> past every node with
  the key that follows \<open>x\<close>, and sets the flag.
\<close>

partial_function (option) delete_while ::
  "'k::linorder \<Rightarrow> nat \<Rightarrow> ('k, 'v) cells \<Rightarrow> addr \<Rightarrow> bool \<Rightarrow> ('k exn + ('k, 'v) cells \<times> addr \<times> bool) option" where
  "delete_while k i c x deleted =
     (case get (nxt (c x)) i of
        None \<Rightarrow> Some (Inr (c, x, deleted))
      | Some y \<Rightarrow>
          (case pair (c y) of
             None \<Rightarrow> Some (Inl TypeError)
           | Some p \<Rightarrow>
               if k < key p then Some (Inr (c, x, deleted))
               else if key p = k then delete_while k i (set_next c x i (get (nxt (c y)) i)) x True
               else delete_while k i c y deleted))"

text \<open>\<open>for i in range(self.level, -1, -1)\<close> of \<open>delete\<close>: the store and the flag after level 0.\<close>

fun delete_for ::
  "'k::linorder \<Rightarrow> nat \<Rightarrow> ('k, 'v) cells \<Rightarrow> addr \<Rightarrow> bool \<Rightarrow> ('k exn + ('k, 'v) cells \<times> bool) option" where
  "delete_for k i c x deleted =
     (case delete_while k i c x deleted of
        None \<Rightarrow> None
      | Some (Inl e) \<Rightarrow> Some (Inl e)
      | Some (Inr (c', x', deleted')) \<Rightarrow>
          (case i of 0 \<Rightarrow> Some (Inr (c', deleted')) | Suc j \<Rightarrow> delete_for k j c' x' deleted'))"

text \<open>\<open>delete\<close> (called \<open>delete_key\<close> here, after \<open>insert_key\<close>).\<close>

definition delete_key ::
  "'k::linorder \<Rightarrow> ('k, 'v) heap \<times> SkipList \<Rightarrow> ('k exn + ('k, 'v) heap \<times> SkipList) option" where
  "delete_key k = (\<lambda>(H, sl).
     case delete_for k (level sl) (cells H) (head sl) False of
       None \<Rightarrow> None
     | Some (Inl e) \<Rightarrow> Some (Inl e)
     | Some (Inr (c', deleted)) \<Rightarrow>
         Some (Inr (H\<lparr>cells := c'\<rparr>, if deleted then sl\<lparr>size_sl := size_sl sl - 1\<rparr> else sl)))"

section \<open>The abstraction: what a well-formed list stores\<close>

text \<open>
  A well-formed list is described by its nodes in the order of level 0. An entry gives a node's
  address, the highest level at which the node is linked from the sentinel, and its key and value.
\<close>

datatype ('k, 'v) entry = Entry (e_addr: addr) (e_height: nat) (e_key: 'k) (e_val: 'v)

text \<open>
  \<open>path c i x as\<close>: following the level-\<open>i\<close> links from node \<open>x\<close> visits exactly the
  addresses \<open>as\<close>, in this order, and then reaches \<open>None\<close>.
\<close>

fun path :: "('k, 'v) cells \<Rightarrow> nat \<Rightarrow> addr \<Rightarrow> addr list \<Rightarrow> bool" where
  "path c i x [] = (get (nxt (c x)) i = None)"
| "path c i x (a # as) = (get (nxt (c x)) i = Some a \<and> path c i a as)"

text \<open>The entries that take part in level \<open>i\<close>.\<close>

definition lvl :: "nat \<Rightarrow> ('k, 'v) entry list \<Rightarrow> ('k, 'v) entry list" where
  "lvl i ns = filter (\<lambda>e. i \<le> e_height e) ns"

text \<open>The node of an entry stores the entry's key and value.\<close>

definition holds :: "('k, 'v) cells \<Rightarrow> ('k, 'v) entry \<Rightarrow> bool" where
  "holds c e = (pair (c (e_addr e)) = Some \<lparr>key = e_key e, val = e_val e\<rparr>)"

text \<open>The entries with a key smaller than, equal to and greater than \<open>k\<close>.\<close>

definition below :: "'k::linorder \<Rightarrow> ('k, 'v) entry list \<Rightarrow> ('k, 'v) entry list" where
  "below k ns = filter (\<lambda>e. e_key e < k) ns"

definition equal_to :: "'k::linorder \<Rightarrow> ('k, 'v) entry list \<Rightarrow> ('k, 'v) entry list" where
  "equal_to k ns = filter (\<lambda>e. e_key e = k) ns"

definition above :: "'k::linorder \<Rightarrow> ('k, 'v) entry list \<Rightarrow> ('k, 'v) entry list" where
  "above k ns = filter (\<lambda>e. k < e_key e) ns"

text \<open>
  What \<open>insert\<close> and \<open>delete\<close> do to the entries: the new entry goes in front of the
  entries whose key is not smaller, and every entry with the key is removed.
\<close>

definition ins_entry :: "('k::linorder, 'v) entry \<Rightarrow> ('k, 'v) entry list \<Rightarrow> ('k, 'v) entry list" where
  "ins_entry e ns = below (e_key e) ns @ e # equal_to (e_key e) ns @ above (e_key e) ns"

definition del_key :: "'k \<Rightarrow> ('k, 'v) entry list \<Rightarrow> ('k, 'v) entry list" where
  "del_key k ns = filter (\<lambda>e. e_key e \<noteq> k) ns"

text \<open>
  Well-formedness: the sentinel and the nodes are allocated and pairwise different, the keys are in
  nondecreasing order, every node stores its pair and is no higher than \<open>level\<close>, and at every
  level the chain from the sentinel is exactly the entries of that level in their order. Equal keys
  are allowed, since \<open>insert\<close> produces them.
\<close>

definition inv :: "('k::linorder, 'v) heap \<times> SkipList \<Rightarrow> ('k, 'v) entry list \<Rightarrow> bool" where
  "inv = (\<lambda>(H, sl) ns.
     head sl < free H \<and>
     distinct (head sl # map e_addr ns) \<and>
     sorted (map e_key ns) \<and>
     (\<forall>e\<in>set ns. e_addr e < free H \<and> holds (cells H) e \<and> e_height e \<le> level sl) \<and>
     (\<forall>i. path (cells H) i (head sl) (map e_addr (lvl i ns))))"

text \<open>No key of a node's dictionary \<open>next\<close> is above \<open>level\<close>.\<close>

definition bounded :: "('k, 'v) heap \<times> SkipList \<Rightarrow> ('k, 'v) entry list \<Rightarrow> bool" where
  "bounded = (\<lambda>(H, sl) ns. \<forall>e\<in>set ns. dom (nxt (cells H (e_addr e))) \<subseteq> {..level sl})"

text \<open>
  The dictionary \<open>next\<close> of every node has exactly the levels up to the node's height as keys,
  as in every node that \<open>insert\<close> builds.
\<close>

definition tight :: "('k, 'v) heap \<times> SkipList \<Rightarrow> ('k, 'v) entry list \<Rightarrow> bool" where
  "tight = (\<lambda>(H, sl) ns. \<forall>e\<in>set ns. dom (nxt (cells H (e_addr e))) = {..e_height e})"

section \<open>Sequences of operations\<close>

text \<open>
  A call of \<open>insert\<close> (with the height that \<open>get_level\<close> drew) or of \<open>delete\<close>; \<open>run\<close>
  performs the calls in order and stops at the first exception.
\<close>

datatype ('k, 'v) op = Insert nat 'k 'v | Delete 'k

fun step :: "('k::linorder, 'v) op \<Rightarrow> ('k, 'v) heap \<times> SkipList \<Rightarrow> ('k exn + ('k, 'v) heap \<times> SkipList) option" where
  "step (Insert h k v) s = insert_key h k v s"
| "step (Delete k) s = delete_key k s"

fun run :: "('k::linorder, 'v) op list \<Rightarrow> ('k, 'v) heap \<times> SkipList \<Rightarrow> ('k exn + ('k, 'v) heap \<times> SkipList) option" where
  "run [] s = Some (Inr s)"
| "run (x # xs) s =
     (case step x s of None \<Rightarrow> None | Some (Inl e) \<Rightarrow> Some (Inl e) | Some (Inr s') \<Rightarrow> run xs s')"

text \<open>The effect of the calls on the entries; the first component is the next free address.\<close>

fun abs_step :: "('k::linorder, 'v) op \<Rightarrow> addr \<times> ('k, 'v) entry list \<Rightarrow> addr \<times> ('k, 'v) entry list" where
  "abs_step (Insert h k v) (f, ns) = (Suc f, ins_entry (Entry f h k v) ns)"
| "abs_step (Delete k) (f, ns) = (f, del_key k ns)"

fun abs_run :: "('k::linorder, 'v) op list \<Rightarrow> addr \<times> ('k, 'v) entry list \<Rightarrow> addr \<times> ('k, 'v) entry list" where
  "abs_run [] a = a"
| "abs_run (x # xs) a = abs_run xs (abs_step x a)"

text \<open>The value of \<open>level\<close> after the calls: only \<open>insert\<close> changes it.\<close>

fun level_after :: "('k, 'v) op list \<Rightarrow> nat \<Rightarrow> nat" where
  "level_after [] l = l"
| "level_after (Insert h k v # xs) l = level_after xs (max l h)"
| "level_after (Delete k # xs) l = level_after xs l"

text \<open>No call of \<open>insert\<close> has a key that is in the list at that moment; \<open>K\<close> are the keys present.\<close>

fun fresh_keys :: "('k, 'v) op list \<Rightarrow> 'k set \<Rightarrow> bool" where
  "fresh_keys [] K = True"
| "fresh_keys (Insert h k v # xs) K = (k \<notin> K \<and> fresh_keys xs (insert k K))"
| "fresh_keys (Delete k # xs) K = fresh_keys xs (K - {k})"

text \<open>The dictionary that the calls build, and the dictionary that a list of entries stands for.\<close>

fun model :: "('k, 'v) op list \<Rightarrow> ('k \<rightharpoonup> 'v) \<Rightarrow> ('k \<rightharpoonup> 'v)" where
  "model [] m = m"
| "model (Insert h k v # xs) m = model xs (m(k \<mapsto> v))"
| "model (Delete k # xs) m = model xs (m(k := None))"

definition contents :: "('k, 'v) entry list \<Rightarrow> ('k \<rightharpoonup> 'v)" where
  "contents ns = map_of (map (\<lambda>e. (e_key e, e_val e)) ns)"

text \<open>The key stored in the node at an address; \<open>None\<close> for the sentinel.\<close>

definition key_at :: "('k, 'v) cells \<Rightarrow> addr \<Rightarrow> 'k option" where
  "key_at c a = map_option key (pair (c a))"

text \<open>The value of \<open>size\<close> after one call.\<close>

fun count_step :: "('k::linorder, 'v) op \<Rightarrow> ('k, 'v) entry list \<Rightarrow> int \<Rightarrow> int" where
  "count_step (Insert h k v) ns n = n + 1"
| "count_step (Delete k) ns n = (if k \<in> e_key ` set ns then n - 1 else n)"

text \<open>The keys that some \<open>insert\<close> of the sequence has.\<close>

definition inserted_keys :: "('k, 'v) op list \<Rightarrow> 'k set" where
  "inserted_keys xs = {k. \<exists>h v. Insert h k v \<in> set xs}"

section \<open>Two lists\<close>

text \<open>
  The list without nodes, \<open>SkipList(SkipNode(Pair(None, None), {}), 0, 0)\<close>: the sentinel is at
  address 0.
\<close>

definition empty_list :: "('k, 'v) heap \<times> SkipList" where
  "empty_list =
     (\<lparr>cells = (\<lambda>_. \<lparr>pair = None, nxt = Map.empty\<rparr>), free = 1\<rparr>,
      \<lparr>head = 0, level = 0, size_sl = 0\<rparr>)"

text \<open>The list of \<open>make_example_list\<close> in \<open>skip_list_test.py\<close> (its second definition, which
  replaces the first): the sentinel is at address 0, the nodes with keys 1, 5, 7, 12, 15, 19, 24 at
  addresses 1 to 7.\<close>

definition example_list :: "(int, string) heap \<times> SkipList" where
  "example_list =
     (\<lparr>cells = (\<lambda>_. \<lparr>pair = None, nxt = Map.empty\<rparr>)
         (0 := \<lparr>pair = None, nxt = [0 \<mapsto> Some 1, 1 \<mapsto> Some 2, 2 \<mapsto> Some 7]\<rparr>,
          1 := \<lparr>pair = Some \<lparr>key = 1, val = ''1!''\<rparr>, nxt = [0 \<mapsto> Some 2]\<rparr>,
          2 := \<lparr>pair = Some \<lparr>key = 5, val = ''5!''\<rparr>, nxt = [0 \<mapsto> Some 3, 1 \<mapsto> Some 5, 2 \<mapsto> Some 7]\<rparr>,
          3 := \<lparr>pair = Some \<lparr>key = 7, val = ''7!''\<rparr>, nxt = [0 \<mapsto> Some 4]\<rparr>,
          4 := \<lparr>pair = Some \<lparr>key = 12, val = ''12!''\<rparr>, nxt = [0 \<mapsto> Some 5]\<rparr>,
          5 := \<lparr>pair = Some \<lparr>key = 15, val = ''15!''\<rparr>, nxt = [0 \<mapsto> Some 6, 1 \<mapsto> Some 7]\<rparr>,
          6 := \<lparr>pair = Some \<lparr>key = 19, val = ''19!''\<rparr>, nxt = [0 \<mapsto> Some 7]\<rparr>,
          7 := \<lparr>pair = Some \<lparr>key = 24, val = ''24!''\<rparr>, nxt = Map.empty\<rparr>),
       free = 8\<rparr>,
      \<lparr>head = 0, level = 2, size_sl = 7\<rparr>)"

text \<open>The entries of the example: the node with key 5 is linked at levels 0 and 1 only.\<close>

definition example_entries :: "(int, string) entry list" where
  "example_entries =
     [Entry 1 0 1 ''1!'', Entry 2 1 5 ''5!'', Entry 3 0 7 ''7!'', Entry 4 0 12 ''12!'',
      Entry 5 1 15 ''15!'', Entry 6 0 19 ''19!'', Entry 7 2 24 ''24!'']"

text \<open>The equations of the recursion over the levels are unfolded only where a proof asks for them.\<close>

declare getitem_for.simps [simp del] insert_for.simps [simp del] delete_for.simps [simp del]

section \<open>Lists of entries\<close>

lemma sorted_split3:
  "sorted (map e_key ns) \<Longrightarrow> below k ns @ equal_to k ns @ above k ns = ns"
proof (induction ns)
  case Nil
  then show ?case by (simp add: below_def equal_to_def above_def)
next
  case (Cons e ns)
  then have ih: "below k ns @ equal_to k ns @ above k ns = ns"
    and le: "\<forall>y\<in>set ns. e_key e \<le> e_key y" by auto
  show ?case
  proof (cases "e_key e < k")
    case True
    then show ?thesis using ih by (auto simp: below_def equal_to_def above_def)
  next
    case False
    then have b: "below k ns = []" using le by (auto simp: below_def filter_empty_conv)
    show ?thesis
    proof (cases "e_key e = k")
      case True
      then show ?thesis using ih b by (simp add: below_def equal_to_def above_def)
    next
      case False
      with \<open>\<not> e_key e < k\<close> have gt: "k < e_key e" by auto
      then have "equal_to k ns = []" using le by (auto simp: equal_to_def filter_empty_conv)
      then show ?thesis using ih b gt by (simp add: below_def equal_to_def above_def)
    qed
  qed
qed

lemma lvl_below: "lvl i (below k ns) = below k (lvl i ns)"
  by (auto simp: lvl_def below_def intro: filter_cong)

lemma lvl_equal_to: "lvl i (equal_to k ns) = equal_to k (lvl i ns)"
  by (auto simp: lvl_def equal_to_def intro: filter_cong)

lemma lvl_above: "lvl i (above k ns) = above k (lvl i ns)"
  by (auto simp: lvl_def above_def intro: filter_cong)

lemma lvl_append: "lvl i (xs @ ys) = lvl i xs @ lvl i ys"
  by (simp add: lvl_def)

lemma sorted_lvl: "sorted (map e_key ns) \<Longrightarrow> sorted (map e_key (lvl i ns))"
  by (simp add: lvl_def sorted_map sorted_wrt_filter)

lemma set_lvl_Suc: "set (lvl (Suc i) ns) \<subseteq> set (lvl i ns)"
  by (auto simp: lvl_def)

section \<open>Chains and assignments\<close>

lemma path_frame:
  "\<forall>a\<in>set (x # as). get (nxt (c' a)) i = get (nxt (c a)) i \<Longrightarrow> path c' i x as = path c i x as"
  by (induction as arbitrary: x) auto

lemma path_unique: "path c i x as \<Longrightarrow> path c i x bs \<Longrightarrow> as = bs"
proof (induction as arbitrary: x bs)
  case Nil
  then show ?case by (cases bs) auto
next
  case (Cons a as)
  then show ?case by (cases bs) auto
qed

lemma path_suffix: "path c i x (as @ bs) \<Longrightarrow> path c i (last (x # as)) bs"
  by (induction as arbitrary: x) auto

lemma get_set_next [simp]:
  "get (nxt (set_next c x i r a)) j = (if a = x \<and> j = i then r else get (nxt (c a)) j)"
  by (simp add: set_next_def get_def)

lemma pair_set_next [simp]: "pair (set_next c x i r a) = pair (c a)"
  by (simp add: set_next_def)

lemma dom_set_next [simp]:
  "dom (nxt (set_next c x i r a)) = (if a = x then insert i (dom (nxt (c a))) else dom (nxt (c a)))"
  by (simp add: set_next_def)

lemma set_next_twice [simp]: "set_next (set_next c x i r) x i r' = set_next c x i r'"
  by (simp add: set_next_def)

lemma holds_set_next [simp]: "holds (set_next c x i r) e = holds c e"
  by (simp add: holds_def)

lemma path_set_next_other [simp]: "j \<noteq> i \<Longrightarrow> path (set_next c x i r) j y as = path c j y as"
  by (rule path_frame) simp

lemma path_set_next_notin: "x \<notin> set (y # as) \<Longrightarrow> path (set_next c x i r) j y as = path c j y as"
  by (rule path_frame) auto

lemma path_set_next_same:
  "path c i y as \<Longrightarrow> x \<notin> set as \<Longrightarrow> path (set_next c x i (get (nxt (c y)) i)) i x as"
  by (cases as) (auto simp: path_set_next_notin)

lemma path_splice_out:
  "path c i h (as @ bs @ cs) \<Longrightarrow> distinct (h # as @ bs @ cs) \<Longrightarrow> bs \<noteq> [] \<Longrightarrow>
   path (set_next c (last (h # as)) i (get (nxt (c (last bs))) i)) i h (as @ cs)"
proof (induction as arbitrary: h)
  case Nil
  then have "path c i (last (h # bs)) cs" using path_suffix [of c i h bs cs] by simp
  then have "path c i (last bs) cs" using Nil.prems(3) by simp
  then show ?case using Nil.prems(2) by (simp add: path_set_next_same)
next
  case (Cons a as)
  have "last (a # as) \<in> set (a # as)" by (rule last_in_set) simp
  then have "h \<noteq> last (a # as)" using Cons.prems(2) by auto
  then show ?case using Cons by auto
qed

lemma path_splice_in:
  "path c i h (as @ bs) \<Longrightarrow> distinct (h # as @ bs) \<Longrightarrow> new \<notin> set (h # as @ bs) \<Longrightarrow>
   p = last (h # as) \<Longrightarrow>
   path (set_next (set_next c new i (get (nxt (c p)) i)) p i (Some new)) i h (as @ new # bs)"
proof (induction as arbitrary: h)
  case Nil
  then have "path c i h bs" "p = h" "new \<noteq> h" "h \<notin> set bs" "new \<notin> set bs" by auto
  then show ?case by (cases bs) (auto simp: path_set_next_notin)
next
  case (Cons a as)
  have "last (a # as) \<in> set (a # as)" by (rule last_in_set) simp
  then have "h \<noteq> p" using Cons.prems(2,4) by auto
  moreover have "p = last (a # as)" using Cons.prems(4) by simp
  ultimately show ?case using Cons by auto
qed

section \<open>The three walks along one level\<close>

text \<open>
  Each walk passes the nodes with smaller keys and stops in front of the first other node. It gives
  the same result from every node it passes, so the node kept from the level above is as good a
  start as the sentinel.
\<close>

lemma getitem_while_walk:
  assumes "path c i h (map e_addr (lo @ hi))"
    and "\<forall>e\<in>set (lo @ hi). holds c e"
    and "\<forall>e\<in>set lo. e_key e < k"
    and "hi = [] \<or> \<not> e_key (hd hi) < k"
    and "x \<in> set (h # map e_addr lo)"
    and "p = last (h # map e_addr lo)"
  shows "getitem_while c k i x =
    Some (case hi of [] \<Rightarrow> Break p
          | e # _ \<Rightarrow> if k < e_key e then Break p else Return (e_val e))"
  using assms
proof (induction lo arbitrary: h x)
  case Nil
  then have x: "x = h" "p = h" by simp_all
  show ?case
  proof (cases hi)
    case Nil
    with Nil.prems(1) x show ?thesis by (subst getitem_while.simps) simp
  next
    case (Cons e es)
    with Nil.prems(1,2,4) x show ?thesis
      by (subst getitem_while.simps) (auto simp: holds_def)
  qed
next
  case (Cons e lo)
  have q: "path c i (e_addr e) (map e_addr (lo @ hi))" and n: "get (nxt (c h)) i = Some (e_addr e)"
    using Cons.prems(1) by auto
  have l: "p = last (e_addr e # map e_addr lo)" using Cons.prems(6) by simp
  have ih: "\<And>y. y \<in> set (e_addr e # map e_addr lo) \<Longrightarrow> getitem_while c k i y =
    Some (case hi of [] \<Rightarrow> Break p
          | e' # _ \<Rightarrow> if k < e_key e' then Break p else Return (e_val e'))"
    using Cons.IH [OF q _ _ _ _ l] Cons.prems(2,3,4) by simp
  have step: "getitem_while c k i h = getitem_while c k i (e_addr e)"
    using n Cons.prems(2,3) by (subst getitem_while.simps) (auto simp: holds_def)
  from Cons.prems(5) have "x = h \<or> x \<in> set (e_addr e # map e_addr lo)" by auto
  then show ?case using step ih by auto
qed

lemma insert_while_walk:
  assumes "path c i h (map e_addr (lo @ hi))"
    and "\<forall>e\<in>set (lo @ hi). holds c e"
    and "\<forall>e\<in>set lo. e_key e < k"
    and "hi = [] \<or> \<not> e_key (hd hi) < k"
    and "x \<in> set (h # map e_addr lo)"
  shows "insert_while c k i x = Some (Inr (last (h # map e_addr lo)))"
  using assms
proof (induction lo arbitrary: h x)
  case Nil
  then have x: "x = h" by simp
  show ?case
  proof (cases hi)
    case Nil
    with Nil.prems(1) x show ?thesis by (subst insert_while.simps) simp
  next
    case (Cons e es)
    with Nil.prems(1,2,4) x show ?thesis
      by (subst insert_while.simps) (auto simp: holds_def)
  qed
next
  case (Cons e lo)
  have q: "path c i (e_addr e) (map e_addr (lo @ hi))" and n: "get (nxt (c h)) i = Some (e_addr e)"
    using Cons.prems(1) by auto
  have ih: "\<And>y. y \<in> set (e_addr e # map e_addr lo) \<Longrightarrow>
      insert_while c k i y = Some (Inr (last (e_addr e # map e_addr lo)))"
    using Cons.IH [OF q] Cons.prems(2,3,4) by simp
  have step: "insert_while c k i h = insert_while c k i (e_addr e)"
    using n Cons.prems(2,3) by (subst insert_while.simps) (auto simp: holds_def)
  from Cons.prems(5) have "x = h \<or> x \<in> set (e_addr e # map e_addr lo)" by auto
  then show ?case using step ih by auto
qed

lemma delete_while_mid:
  assumes "path c i p (map e_addr (mid @ hi))"
    and "\<forall>e\<in>set (mid @ hi). holds c e"
    and "\<forall>e\<in>set mid. e_key e = k"
    and "hi = [] \<or> k < e_key (hd hi)"
    and "p \<notin> set (map e_addr (mid @ hi))"
  shows "delete_while k i c p d =
    Some (Inr (if mid = [] then c else set_next c p i (get (nxt (c (e_addr (last mid)))) i),
               p, d \<or> mid \<noteq> []))"
  using assms
proof (induction mid arbitrary: c d)
  case Nil
  show ?case
  proof (cases hi)
    case Nil
    with Nil.prems(1) show ?thesis by (subst delete_while.simps) simp
  next
    case (Cons e es)
    with Nil.prems(1,2,4) show ?thesis
      by (subst delete_while.simps) (auto simp: holds_def)
  qed
next
  case (Cons m mid)
  define c1 where "c1 = set_next c p i (get (nxt (c (e_addr m))) i)"
  have n: "get (nxt (c p)) i = Some (e_addr m)" and q: "path c i (e_addr m) (map e_addr (mid @ hi))"
    using Cons.prems(1) by auto
  have step: "delete_while k i c p d = delete_while k i c1 p True"
    using n Cons.prems(2,3) by (subst delete_while.simps) (auto simp: holds_def c1_def)
  have q1: "path c1 i p (map e_addr (mid @ hi))"
    unfolding c1_def using q Cons.prems(5) by (intro path_set_next_same) auto
  have h1: "\<forall>e\<in>set (mid @ hi). holds c1 e" using Cons.prems(2) by (simp add: c1_def)
  have ih: "delete_while k i c1 p True =
    Some (Inr (if mid = [] then c1 else set_next c1 p i (get (nxt (c1 (e_addr (last mid)))) i),
               p, True \<or> mid \<noteq> []))"
    using Cons.IH [OF q1 h1] Cons.prems(3,4,5) by simp
  have "mid \<noteq> [] \<Longrightarrow> e_addr (last mid) \<noteq> p"
    using Cons.prems(5) last_in_set [of mid] by auto
  then show ?case using step ih by (auto simp: c1_def)
qed

lemma delete_while_walk:
  assumes "path c i h (map e_addr (lo @ mid @ hi))"
    and "\<forall>e\<in>set (lo @ mid @ hi). holds c e"
    and "\<forall>e\<in>set lo. e_key e < k"
    and "\<forall>e\<in>set mid. e_key e = k"
    and "hi = [] \<or> k < e_key (hd hi)"
    and "distinct (h # map e_addr (lo @ mid @ hi))"
    and "x \<in> set (h # map e_addr lo)"
    and "p = last (h # map e_addr lo)"
  shows "delete_while k i c x d =
    Some (Inr (if mid = [] then c else set_next c p i (get (nxt (c (e_addr (last mid)))) i),
               p, d \<or> mid \<noteq> []))"
  using assms
proof (induction lo arbitrary: h x)
  case Nil
  then have "x = h" "p = h" by simp_all
  then show ?case using Nil.prems delete_while_mid [of c i h mid hi k d] by simp
next
  case (Cons e lo)
  have q: "path c i (e_addr e) (map e_addr (lo @ mid @ hi))" and n: "get (nxt (c h)) i = Some (e_addr e)"
    using Cons.prems(1) by auto
  have l: "p = last (e_addr e # map e_addr lo)" using Cons.prems(8) by simp
  have ih: "\<And>y. y \<in> set (e_addr e # map e_addr lo) \<Longrightarrow> delete_while k i c y d =
    Some (Inr (if mid = [] then c else set_next c p i (get (nxt (c (e_addr (last mid)))) i),
               p, d \<or> mid \<noteq> []))"
    using Cons.IH [OF q _ _ _ _ _ _ l] Cons.prems(2,3,4,5,6) by simp
  have step: "delete_while k i c h d = delete_while k i c (e_addr e) d"
    using n Cons.prems(2,3) by (subst delete_while.simps) (auto simp: holds_def)
  from Cons.prems(7) have "x = h \<or> x \<in> set (e_addr e # map e_addr lo)" by auto
  then show ?case using step ih by auto
qed

section \<open>From the top level down to level 0\<close>

lemma below_keys: "\<forall>e\<in>set (below k ns). e_key e < k"
  by (simp add: below_def)

lemma equal_to_keys: "\<forall>e\<in>set (equal_to k ns). e_key e = k"
  by (simp add: equal_to_def)

lemma hd_equal_above: "equal_to k ns @ above k ns = [] \<or> \<not> e_key (hd (equal_to k ns @ above k ns)) < k"
proof (cases "equal_to k ns @ above k ns")
  case Nil
  then show ?thesis by simp
next
  case (Cons e es)
  then have "e \<in> set (equal_to k ns) \<union> set (above k ns)"
    by (metis list.set_intros(1) set_append)
  then have "\<not> e_key e < k" by (auto simp: equal_to_def above_def)
  with Cons show ?thesis by simp
qed

lemma hd_above: "above k ns = [] \<or> k < e_key (hd (above k ns))"
proof (cases "above k ns")
  case Nil
  then show ?thesis by simp
next
  case (Cons e es)
  then have "e \<in> set (above k ns)" by simp
  then have "k < e_key e" by (auto simp: above_def)
  with Cons show ?thesis by simp
qed

lemma below_lvl_Suc: "set (below k (lvl (Suc i) ns)) \<subseteq> set (below k (lvl i ns))"
  by (auto simp: below_def lvl_def)

lemma last_below_mem: "last (h # map e_addr (below k (lvl i ns))) \<in> set (h # map e_addr (below k (lvl i ns)))"
  by (rule last_in_set) simp

lemma last_below_Suc:
  "last (h # map e_addr (below k (lvl (Suc i) ns))) \<in> set (h # map e_addr (below k (lvl i ns)))"
  using last_below_mem [of h k "Suc i" ns] below_lvl_Suc [of k i ns] by auto

lemma lvl_0 [simp]: "lvl 0 ns = ns"
  by (simp add: lvl_def)

text \<open>One level of the lookup.\<close>

lemma getitem_while_level:
  assumes "path c i h (map e_addr (lvl i ns))"
    and "\<forall>e\<in>set ns. holds c e"
    and "sorted (map e_key ns)"
    and "x \<in> set (h # map e_addr (below k (lvl i ns)))"
  shows "getitem_while c k i x =
    Some (case equal_to k (lvl i ns) of
            [] \<Rightarrow> Break (last (h # map e_addr (below k (lvl i ns))))
          | e # _ \<Rightarrow> Return (e_val e))"
proof -
  let ?L = "lvl i ns"
  let ?hi = "equal_to k ?L @ above k ?L"
  have split: "below k ?L @ ?hi = ?L"
    using sorted_split3 [OF sorted_lvl [OF assms(3)]] .
  have h: "\<forall>e\<in>set (below k ?L @ ?hi). holds c e"
    unfolding split using assms(2) by (auto simp: lvl_def)
  have w: "getitem_while c k i x =
    Some (case ?hi of [] \<Rightarrow> Break (last (h # map e_addr (below k ?L)))
          | e # _ \<Rightarrow> if k < e_key e then Break (last (h # map e_addr (below k ?L))) else Return (e_val e))"
    by (rule getitem_while_walk [OF _ h below_keys hd_equal_above assms(4) refl])
       (simp only: split assms(1))
  show ?thesis
  proof (cases "equal_to k ?L")
    case Nil
    then show ?thesis using w hd_above [of k ?L] by (cases "above k ?L") auto
  next
    case (Cons e es)
    then have "e \<in> set (equal_to k ?L)" by simp
    then have "e_key e = k" by (simp add: equal_to_def)
    then show ?thesis using w Cons by simp
  qed
qed

lemma getitem_for_correct:
  assumes "\<forall>j\<le>i. path c j h (map e_addr (lvl j ns))"
    and "\<forall>e\<in>set ns. holds c e"
    and "sorted (map e_key ns)"
    and "x \<in> set (h # map e_addr (below k (lvl i ns)))"
  shows "(k \<notin> e_key ` set ns \<and> getitem_for c k i x = Some (Inl (KeyError k))) \<or>
         (\<exists>e\<in>set ns. e_key e = k \<and> getitem_for c k i x = Some (Inr (e_val e)))"
  using assms(1,4)
proof (induction i arbitrary: x)
  case 0
  have w: "getitem_while c k 0 x =
    Some (case equal_to k (lvl 0 ns) of [] \<Rightarrow> Break (last (h # map e_addr (below k (lvl 0 ns))))
          | e # _ \<Rightarrow> Return (e_val e))"
    using getitem_while_level [of c 0 h ns x k] 0 assms(2,3) by blast
  show ?case
  proof (cases "equal_to k (lvl 0 ns)")
    case Nil
    then have "k \<notin> e_key ` set ns" by (auto simp: equal_to_def filter_empty_conv)
    then show ?thesis using w Nil by (simp add: getitem_for.simps [of c k 0])
  next
    case (Cons e es)
    then have "e \<in> set (equal_to k (lvl 0 ns))" by simp
    then have "e \<in> set ns" "e_key e = k" by (auto simp: equal_to_def)
    then show ?thesis using w Cons by (auto simp: getitem_for.simps [of c k 0])
  qed
next
  case (Suc i)
  have w: "getitem_while c k (Suc i) x =
    Some (case equal_to k (lvl (Suc i) ns) of
            [] \<Rightarrow> Break (last (h # map e_addr (below k (lvl (Suc i) ns))))
          | e # _ \<Rightarrow> Return (e_val e))"
    using getitem_while_level [of c "Suc i" h ns x k] Suc.prems assms(2,3) by blast
  show ?case
  proof (cases "equal_to k (lvl (Suc i) ns)")
    case Nil
    have "getitem_for c k (Suc i) x = getitem_for c k i (last (h # map e_addr (below k (lvl (Suc i) ns))))"
      using w Nil by (simp add: getitem_for.simps [of c k "Suc i"])
    then show ?thesis using Suc.IH [OF _ last_below_Suc] Suc.prems(1) by simp
  next
    case (Cons e es)
    then have "e \<in> set (equal_to k (lvl (Suc i) ns))" by simp
    then have "e \<in> set ns" "e_key e = k" by (auto simp: equal_to_def lvl_def)
    then show ?thesis using w Cons by (auto simp: getitem_for.simps [of c k "Suc i"])
  qed
qed

lemma distinct_lvl_addrs:
  "distinct (h # map e_addr ns) \<Longrightarrow> distinct (h # map e_addr (lvl i ns))"
  by (auto simp: lvl_def distinct_map_filter)

lemma addr_in_lvl:
  assumes "distinct (map e_addr ns)" "e \<in> set ns" "e' \<in> set (lvl i ns)" "e_addr e' = e_addr e"
  shows "i \<le> e_height e"
proof -
  have "e' \<in> set ns" "i \<le> e_height e'" using assms(3) by (auto simp: lvl_def)
  moreover have "inj_on e_addr (set ns)" using assms(1) by (simp add: distinct_map)
  ultimately show ?thesis using assms(2,4) by (auto dest: inj_onD)
qed

text \<open>One level of the insertion: the walk and the two assignments.\<close>

lemma insert_level:
  assumes "path c i h (map e_addr (lvl i ns))"
    and "\<forall>e\<in>set ns. holds c e"
    and "sorted (map e_key ns)"
    and "distinct (h # map e_addr ns)"
    and "new \<notin> set (h # map e_addr ns)"
    and "x \<in> set (h # map e_addr (below k (lvl i ns)))"
    and "p = last (h # map e_addr (below k (lvl i ns)))"
  shows "insert_while c k i x = Some (Inr p)"
    and "path (set_next (set_next c new i (get (nxt (c p)) i)) p i (Some new)) i h
           (map e_addr (below k (lvl i ns)) @ new # map e_addr (equal_to k (lvl i ns) @ above k (lvl i ns)))"
proof -
  let ?L = "lvl i ns"
  let ?hi = "equal_to k ?L @ above k ?L"
  have split: "below k ?L @ ?hi = ?L"
    using sorted_split3 [OF sorted_lvl [OF assms(3)]] .
  have h: "\<forall>e\<in>set (below k ?L @ ?hi). holds c e"
    unfolding split using assms(2) by (auto simp: lvl_def)
  have pth: "path c i h (map e_addr (below k ?L @ ?hi))"
    by (simp only: split assms(1))
  show "insert_while c k i x = Some (Inr p)"
    unfolding assms(7)
    by (rule insert_while_walk [OF pth h below_keys hd_equal_above assms(6)])
  have d: "distinct (h # map e_addr (below k ?L) @ map e_addr ?hi)"
    using distinct_lvl_addrs [OF assms(4), of i] split by (metis map_append)
  have n: "new \<notin> set (h # map e_addr (below k ?L) @ map e_addr ?hi)"
  proof -
    have "set (map e_addr (below k ?L) @ map e_addr ?hi) = set (map e_addr ?L)"
      using split by (metis map_append)
    then show ?thesis using assms(5) by (auto simp: lvl_def)
  qed
  have pth': "path c i h (map e_addr (below k ?L) @ map e_addr ?hi)"
    using pth by simp
  show "path (set_next (set_next c new i (get (nxt (c p)) i)) p i (Some new)) i h
           (map e_addr (below k ?L) @ new # map e_addr ?hi)"
    by (rule path_splice_in [OF pth' d n assms(7)])
qed

lemma dom_touch:
  assumes "distinct (h # map e_addr ns)"
    and "p \<in> set (h # map e_addr (below k (lvl i ns)))"
    and "e \<in> set ns"
    and "{..e_height e} \<subseteq> dom (nxt (c (e_addr e)))"
  shows "dom (nxt (set_next c p i r (e_addr e))) = dom (nxt (c (e_addr e)))"
proof (cases "e_addr e = p")
  case True
  have "e_addr e \<noteq> h" using assms(1,3) by auto
  with True assms(2) obtain e' where e': "e' \<in> set (lvl i ns)" "e_addr e' = e_addr e"
    by (auto simp: below_def)
  have "i \<le> e_height e"
    using addr_in_lvl [OF _ assms(3) e'] assms(1) by simp
  then have "i \<in> dom (nxt (c (e_addr e)))" using assms(4) by auto
  then show ?thesis using True by (simp add: insert_absorb)
next
  case False
  then show ?thesis by simp
qed

lemma insert_for_correct:
  assumes st: "sorted (map e_key ns)" "distinct (h # map e_addr ns)" "new \<notin> set (h # map e_addr ns)"
    and "\<forall>e\<in>set ns. holds c e"
    and "\<forall>j\<le>i. path c j h (map e_addr (lvl j ns))"
    and "x \<in> set (h # map e_addr (below k (lvl i ns)))"
  shows "\<exists>c'. insert_for new k i c x = Some (Inr c') \<and>
      (\<forall>j\<le>i. path c' j h (map e_addr (below k (lvl j ns)) @
                              new # map e_addr (equal_to k (lvl j ns) @ above k (lvl j ns)))) \<and>
      (\<forall>j a. i < j \<longrightarrow> get (nxt (c' a)) j = get (nxt (c a)) j) \<and>
      (\<forall>a. pair (c' a) = pair (c a)) \<and>
      dom (nxt (c' new)) = dom (nxt (c new)) \<union> {..i} \<and>
      (\<forall>e\<in>set ns. {..e_height e} \<subseteq> dom (nxt (c (e_addr e))) \<longrightarrow>
                   dom (nxt (c' (e_addr e))) = dom (nxt (c (e_addr e)))) \<and>
      (\<forall>a. dom (nxt (c' a)) \<subseteq> dom (nxt (c a)) \<union> {..i})"
  using assms(4,5,6)
proof (induction i arbitrary: c x)
  case 0
  define p where "p = last (h # map e_addr (below k (lvl 0 ns)))"
  define c1 where "c1 = set_next c new 0 (get (nxt (c p)) 0)"
  define c2 where "c2 = set_next c1 p 0 (Some new)"
  have p0: "path c 0 h (map e_addr (lvl 0 ns))" using "0.prems"(2) by blast
  have w: "insert_while c k 0 x = Some (Inr p)"
    by (rule insert_level(1) [OF p0 "0.prems"(1) st "0.prems"(3) p_def])
  have pth: "path c2 0 h (map e_addr (below k (lvl 0 ns)) @
                              new # map e_addr (equal_to k (lvl 0 ns) @ above k (lvl 0 ns)))"
    unfolding c2_def c1_def
    by (rule insert_level(2) [OF p0 "0.prems"(1) st "0.prems"(3) p_def])
  have res: "insert_for new k 0 c x = Some (Inr c2)"
    using w by (simp add: insert_for.simps [of new k 0] c2_def c1_def Let_def)
  have pm: "p \<in> set (h # map e_addr (below k (lvl 0 ns)))"
    unfolding p_def by (rule last_below_mem)
  then have pn: "p \<noteq> new" using st(3) by (auto simp: below_def lvl_def)
  have dn: "dom (nxt (c2 new)) = dom (nxt (c new)) \<union> {..0}"
    using pn by (simp add: c2_def c1_def)
  have d_old: "dom (nxt (c2 (e_addr e))) = dom (nxt (c (e_addr e)))"
    if "e \<in> set ns" "{..e_height e} \<subseteq> dom (nxt (c (e_addr e)))" for e
  proof -
    have ne: "e_addr e \<noteq> new" using that(1) st(3) by auto
    then have "{..e_height e} \<subseteq> dom (nxt (c1 (e_addr e)))" using that(2) by (simp add: c1_def)
    then have "dom (nxt (c2 (e_addr e))) = dom (nxt (c1 (e_addr e)))"
      unfolding c2_def by (rule dom_touch [OF st(2) pm that(1)])
    then show ?thesis using ne by (simp add: c1_def)
  qed
  have fr: "\<forall>j a. 0 < j \<longrightarrow> get (nxt (c2 a)) j = get (nxt (c a)) j"
    by (simp add: c2_def c1_def)
  have pr: "\<forall>a. pair (c2 a) = pair (c a)" by (simp add: c2_def c1_def)
  have ds: "\<forall>a. dom (nxt (c2 a)) \<subseteq> dom (nxt (c a)) \<union> {..0}"
    by (auto simp: c2_def c1_def)
  show ?case using res pth fr pr dn d_old ds by (intro exI [of _ c2]) simp
next
  case (Suc i)
  define p where "p = last (h # map e_addr (below k (lvl (Suc i) ns)))"
  define c1 where "c1 = set_next c new (Suc i) (get (nxt (c p)) (Suc i))"
  define c2 where "c2 = set_next c1 p (Suc i) (Some new)"
  have p0: "path c (Suc i) h (map e_addr (lvl (Suc i) ns))" using Suc.prems(2) by blast
  have w: "insert_while c k (Suc i) x = Some (Inr p)"
    by (rule insert_level(1) [OF p0 Suc.prems(1) st Suc.prems(3) p_def])
  have pth: "path c2 (Suc i) h (map e_addr (below k (lvl (Suc i) ns)) @
                 new # map e_addr (equal_to k (lvl (Suc i) ns) @ above k (lvl (Suc i) ns)))"
    unfolding c2_def c1_def
    by (rule insert_level(2) [OF p0 Suc.prems(1) st Suc.prems(3) p_def])
  have res: "insert_for new k (Suc i) c x = insert_for new k i c2 p"
    using w by (simp add: insert_for.simps [of new k "Suc i"] c2_def c1_def Let_def)
  have pm: "p \<in> set (h # map e_addr (below k (lvl (Suc i) ns)))"
    unfolding p_def by (rule last_below_mem)
  then have pn: "p \<noteq> new" using st(3) by (auto simp: below_def lvl_def)
  have d_old: "dom (nxt (c2 (e_addr e))) = dom (nxt (c (e_addr e)))"
    if "e \<in> set ns" "{..e_height e} \<subseteq> dom (nxt (c (e_addr e)))" for e
  proof -
    have ne: "e_addr e \<noteq> new" using that(1) st(3) by auto
    then have "{..e_height e} \<subseteq> dom (nxt (c1 (e_addr e)))" using that(2) by (simp add: c1_def)
    then have "dom (nxt (c2 (e_addr e))) = dom (nxt (c1 (e_addr e)))"
      unfolding c2_def by (rule dom_touch [OF st(2) pm that(1)])
    then show ?thesis using ne by (simp add: c1_def)
  qed
  have h2: "\<forall>e\<in>set ns. holds c2 e" using Suc.prems(1) by (simp add: c2_def c1_def)
  have p2: "\<forall>j\<le>i. path c2 j h (map e_addr (lvl j ns))"
    using Suc.prems(2) by (simp add: c2_def c1_def)
  have x2: "p \<in> set (h # map e_addr (below k (lvl i ns)))"
    unfolding p_def by (rule last_below_Suc)
  from Suc.IH [OF h2 p2 x2] obtain c' where
    r: "insert_for new k i c2 p = Some (Inr c')"
    and pl: "\<forall>j\<le>i. path c' j h (map e_addr (below k (lvl j ns)) @
                              new # map e_addr (equal_to k (lvl j ns) @ above k (lvl j ns)))"
    and fr: "\<forall>j a. i < j \<longrightarrow> get (nxt (c' a)) j = get (nxt (c2 a)) j"
    and pr: "\<forall>a. pair (c' a) = pair (c2 a)"
    and dn: "dom (nxt (c' new)) = dom (nxt (c2 new)) \<union> {..i}"
    and dold: "\<forall>e\<in>set ns. {..e_height e} \<subseteq> dom (nxt (c2 (e_addr e))) \<longrightarrow>
                   dom (nxt (c' (e_addr e))) = dom (nxt (c2 (e_addr e)))"
    and da: "\<forall>a. dom (nxt (c' a)) \<subseteq> dom (nxt (c2 a)) \<union> {..i}"
    by blast
  have top: "path c' (Suc i) h (map e_addr (below k (lvl (Suc i) ns)) @
                 new # map e_addr (equal_to k (lvl (Suc i) ns) @ above k (lvl (Suc i) ns)))"
    using pth fr path_frame [of h _ c' "Suc i" c2] by simp
  have g1: "\<forall>j\<le>Suc i. path c' j h (map e_addr (below k (lvl j ns)) @
                              new # map e_addr (equal_to k (lvl j ns) @ above k (lvl j ns)))"
    using pl top by (auto simp: le_Suc_eq)
  have g2: "\<forall>j a. Suc i < j \<longrightarrow> get (nxt (c' a)) j = get (nxt (c a)) j"
    using fr by (simp add: c2_def c1_def)
  have g3: "\<forall>a. pair (c' a) = pair (c a)" using pr by (simp add: c2_def c1_def)
  have g4: "dom (nxt (c' new)) = dom (nxt (c new)) \<union> {..Suc i}"
    using dn pn by (auto simp: c2_def c1_def atMost_Suc)
  have g5: "\<forall>e\<in>set ns. {..e_height e} \<subseteq> dom (nxt (c (e_addr e))) \<longrightarrow>
                   dom (nxt (c' (e_addr e))) = dom (nxt (c (e_addr e)))"
    using dold d_old by auto
  have s2: "\<forall>a. dom (nxt (c2 a)) \<subseteq> dom (nxt (c a)) \<union> {Suc i}"
    by (auto simp: c2_def c1_def)
  have g6: "\<forall>a. dom (nxt (c' a)) \<subseteq> dom (nxt (c a)) \<union> {..Suc i}"
    using da s2 by (fastforce simp: atMost_Suc)
  show ?case using res r g1 g2 g3 g4 g5 g6 by (intro exI [of _ c']) simp
qed

lemma equal_to_lvl_empty: "equal_to k ns = [] \<Longrightarrow> equal_to k (lvl i ns) = []"
  by (auto simp: equal_to_def lvl_def filter_empty_conv)

text \<open>One level of the deletion.\<close>

lemma delete_level:
  assumes "path c i h (map e_addr (lvl i ns))"
    and "\<forall>e\<in>set ns. holds c e"
    and "sorted (map e_key ns)"
    and "distinct (h # map e_addr ns)"
    and "x \<in> set (h # map e_addr (below k (lvl i ns)))"
    and "p = last (h # map e_addr (below k (lvl i ns)))"
    and "c' = (if equal_to k (lvl i ns) = [] then c
               else set_next c p i (get (nxt (c (e_addr (last (equal_to k (lvl i ns)))))) i))"
  shows "delete_while k i c x d = Some (Inr (c', p, d \<or> equal_to k (lvl i ns) \<noteq> []))"
    and "path c' i h (map e_addr (below k (lvl i ns) @ above k (lvl i ns)))"
proof -
  let ?L = "lvl i ns"
  have split: "below k ?L @ equal_to k ?L @ above k ?L = ?L"
    using sorted_split3 [OF sorted_lvl [OF assms(3)]] .
  have h: "\<forall>e\<in>set (below k ?L @ equal_to k ?L @ above k ?L). holds c e"
    unfolding split using assms(2) by (auto simp: lvl_def)
  have pth: "path c i h (map e_addr (below k ?L @ equal_to k ?L @ above k ?L))"
    by (simp only: split assms(1))
  have d: "distinct (h # map e_addr (below k ?L @ equal_to k ?L @ above k ?L))"
    using distinct_lvl_addrs [OF assms(4), of i] by (simp only: split)
  show "delete_while k i c x d = Some (Inr (c', p, d \<or> equal_to k ?L \<noteq> []))"
    unfolding assms(7)
    by (rule delete_while_walk [OF pth h below_keys equal_to_keys hd_above d assms(5,6)])
  show "path c' i h (map e_addr (below k ?L @ above k ?L))"
  proof (cases "equal_to k ?L = []")
    case True
    then show ?thesis using pth assms(7) by simp
  next
    case False
    have pth': "path c i h (map e_addr (below k ?L) @ map e_addr (equal_to k ?L) @ map e_addr (above k ?L))"
      using pth by simp
    have d': "distinct (h # map e_addr (below k ?L) @ map e_addr (equal_to k ?L) @ map e_addr (above k ?L))"
      using d by simp
    have ne: "map e_addr (equal_to k ?L) \<noteq> []" using False by simp
    have "path (set_next c (last (h # map e_addr (below k ?L))) i
                  (get (nxt (c (last (map e_addr (equal_to k ?L))))) i)) i h
               (map e_addr (below k ?L) @ map e_addr (above k ?L))"
      by (rule path_splice_out [OF pth' d' ne])
    then show ?thesis using False assms(6,7) by (simp add: last_map)
  qed
qed

lemma delete_for_correct:
  assumes st: "sorted (map e_key ns)" "distinct (h # map e_addr ns)"
    and "\<forall>e\<in>set ns. holds c e"
    and "\<forall>j\<le>i. path c j h (map e_addr (lvl j ns))"
    and "x \<in> set (h # map e_addr (below k (lvl i ns)))"
  shows "\<exists>c'. delete_for k i c x d = Some (Inr (c', d \<or> equal_to k ns \<noteq> [])) \<and>
      (\<forall>j\<le>i. path c' j h (map e_addr (below k (lvl j ns) @ above k (lvl j ns)))) \<and>
      (\<forall>j a. i < j \<longrightarrow> get (nxt (c' a)) j = get (nxt (c a)) j) \<and>
      (\<forall>a. pair (c' a) = pair (c a)) \<and>
      (equal_to k ns = [] \<longrightarrow> c' = c) \<and>
      (\<forall>e\<in>set ns. {..e_height e} \<subseteq> dom (nxt (c (e_addr e))) \<longrightarrow>
                   dom (nxt (c' (e_addr e))) = dom (nxt (c (e_addr e)))) \<and>
      (\<forall>a. dom (nxt (c' a)) \<subseteq> dom (nxt (c a)) \<union> {..i})"
  using assms(3,4,5)
proof (induction i arbitrary: c x d)
  case 0
  define p where "p = last (h # map e_addr (below k (lvl 0 ns)))"
  define c1 where "c1 = (if equal_to k (lvl 0 ns) = [] then c
               else set_next c p 0 (get (nxt (c (e_addr (last (equal_to k (lvl 0 ns)))))) 0))"
  have p0: "path c 0 h (map e_addr (lvl 0 ns))" using "0.prems"(2) by blast
  have w: "delete_while k 0 c x d = Some (Inr (c1, p, d \<or> equal_to k (lvl 0 ns) \<noteq> []))"
    by (rule delete_level(1) [OF p0 "0.prems"(1) st "0.prems"(3) p_def c1_def])
  have pth: "path c1 0 h (map e_addr (below k (lvl 0 ns) @ above k (lvl 0 ns)))"
    by (rule delete_level(2) [OF p0 "0.prems"(1) st "0.prems"(3) p_def c1_def])
  have res: "delete_for k 0 c x d = Some (Inr (c1, d \<or> equal_to k ns \<noteq> []))"
    using w by (simp add: delete_for.simps [of k 0])
  have pm: "p \<in> set (h # map e_addr (below k (lvl 0 ns)))"
    unfolding p_def by (rule last_below_mem)
  have d_old: "dom (nxt (c1 (e_addr e))) = dom (nxt (c (e_addr e)))"
    if "e \<in> set ns" "{..e_height e} \<subseteq> dom (nxt (c (e_addr e)))" for e
    using dom_touch [where c = c, OF st(2) pm that] by (simp add: c1_def)
  have fr: "\<forall>j a. 0 < j \<longrightarrow> get (nxt (c1 a)) j = get (nxt (c a)) j"
    by (simp add: c1_def)
  have pr: "\<forall>a. pair (c1 a) = pair (c a)" by (simp add: c1_def)
  have un: "equal_to k ns = [] \<longrightarrow> c1 = c" by (simp add: c1_def)
  have ds: "\<forall>a. dom (nxt (c1 a)) \<subseteq> dom (nxt (c a)) \<union> {..0}"
    by (auto simp: c1_def)
  show ?case using res pth fr pr un d_old ds by (intro exI [of _ c1]) simp
next
  case (Suc i)
  define p where "p = last (h # map e_addr (below k (lvl (Suc i) ns)))"
  define c1 where "c1 = (if equal_to k (lvl (Suc i) ns) = [] then c
       else set_next c p (Suc i) (get (nxt (c (e_addr (last (equal_to k (lvl (Suc i) ns)))))) (Suc i)))"
  define d1 where "d1 = (d \<or> equal_to k (lvl (Suc i) ns) \<noteq> [])"
  have p0: "path c (Suc i) h (map e_addr (lvl (Suc i) ns))" using Suc.prems(2) by blast
  have w: "delete_while k (Suc i) c x d = Some (Inr (c1, p, d1))"
    unfolding d1_def
    by (rule delete_level(1) [OF p0 Suc.prems(1) st Suc.prems(3) p_def c1_def])
  have pth: "path c1 (Suc i) h (map e_addr (below k (lvl (Suc i) ns) @ above k (lvl (Suc i) ns)))"
    by (rule delete_level(2) [OF p0 Suc.prems(1) st Suc.prems(3) p_def c1_def])
  have res: "delete_for k (Suc i) c x d = delete_for k i c1 p d1"
    using w by (simp add: delete_for.simps [of k "Suc i"])
  have pm: "p \<in> set (h # map e_addr (below k (lvl (Suc i) ns)))"
    unfolding p_def by (rule last_below_mem)
  have d_old: "dom (nxt (c1 (e_addr e))) = dom (nxt (c (e_addr e)))"
    if "e \<in> set ns" "{..e_height e} \<subseteq> dom (nxt (c (e_addr e)))" for e
    using dom_touch [where c = c, OF st(2) pm that] by (simp add: c1_def)
  have h1: "\<forall>e\<in>set ns. holds c1 e" using Suc.prems(1) by (simp add: c1_def)
  have p1: "\<forall>j\<le>i. path c1 j h (map e_addr (lvl j ns))"
    using Suc.prems(2) by (simp add: c1_def)
  have x1: "p \<in> set (h # map e_addr (below k (lvl i ns)))"
    unfolding p_def by (rule last_below_Suc)
  from Suc.IH [OF h1 p1 x1, of d1] obtain c' where
    r: "delete_for k i c1 p d1 = Some (Inr (c', d1 \<or> equal_to k ns \<noteq> []))"
    and pl: "\<forall>j\<le>i. path c' j h (map e_addr (below k (lvl j ns) @ above k (lvl j ns)))"
    and fr: "\<forall>j a. i < j \<longrightarrow> get (nxt (c' a)) j = get (nxt (c1 a)) j"
    and pr: "\<forall>a. pair (c' a) = pair (c1 a)"
    and un: "equal_to k ns = [] \<longrightarrow> c' = c1"
    and dold: "\<forall>e\<in>set ns. {..e_height e} \<subseteq> dom (nxt (c1 (e_addr e))) \<longrightarrow>
                   dom (nxt (c' (e_addr e))) = dom (nxt (c1 (e_addr e)))"
    and da: "\<forall>a. dom (nxt (c' a)) \<subseteq> dom (nxt (c1 a)) \<union> {..i}"
    by blast
  have dd: "(d1 \<or> equal_to k ns \<noteq> []) = (d \<or> equal_to k ns \<noteq> [])"
    using equal_to_lvl_empty [of k ns "Suc i"] by (auto simp: d1_def)
  have top: "path c' (Suc i) h (map e_addr (below k (lvl (Suc i) ns) @ above k (lvl (Suc i) ns)))"
    using pth fr path_frame [of h _ c' "Suc i" c1] by simp
  have g1: "\<forall>j\<le>Suc i. path c' j h (map e_addr (below k (lvl j ns) @ above k (lvl j ns)))"
    using pl top by (auto simp: le_Suc_eq)
  have g2: "\<forall>j a. Suc i < j \<longrightarrow> get (nxt (c' a)) j = get (nxt (c a)) j"
    using fr by (simp add: c1_def)
  have g3: "\<forall>a. pair (c' a) = pair (c a)" using pr by (simp add: c1_def)
  have g4: "equal_to k ns = [] \<longrightarrow> c' = c"
    using un equal_to_lvl_empty [of k ns "Suc i"] by (simp add: c1_def)
  have g5: "\<forall>e\<in>set ns. {..e_height e} \<subseteq> dom (nxt (c (e_addr e))) \<longrightarrow>
                   dom (nxt (c' (e_addr e))) = dom (nxt (c (e_addr e)))"
    using dold d_old by auto
  have s1: "\<forall>a. dom (nxt (c1 a)) \<subseteq> dom (nxt (c a)) \<union> {Suc i}"
    by (auto simp: c1_def)
  have g6: "\<forall>a. dom (nxt (c' a)) \<subseteq> dom (nxt (c a)) \<union> {..Suc i}"
    using da s1 by (fastforce simp: atMost_Suc)
  show ?case using res r dd g1 g2 g3 g4 g5 g6 by (intro exI [of _ c']) simp
qed

section \<open>The operations keep a list well-formed\<close>

lemma ins_entry_split:
  assumes "sorted (map e_key ns)"
  shows "\<exists>b a. ns = b @ a \<and> ins_entry e ns = b @ e # a \<and>
           (\<forall>x\<in>set b. e_key x < e_key e) \<and> (\<forall>x\<in>set a. e_key e \<le> e_key x)"
proof -
  let ?b = "below (e_key e) ns" and ?a = "equal_to (e_key e) ns @ above (e_key e) ns"
  have "ns = ?b @ ?a" using sorted_split3 [OF assms, of "e_key e"] by simp
  moreover have "ins_entry e ns = ?b @ e # ?a" by (simp add: ins_entry_def)
  moreover have "\<forall>x\<in>set ?b. e_key x < e_key e" by (simp add: below_def)
  moreover have "\<forall>x\<in>set ?a. e_key e \<le> e_key x" by (auto simp: equal_to_def above_def)
  ultimately show ?thesis by blast
qed

lemma set_ins_entry: "sorted (map e_key ns) \<Longrightarrow> set (ins_entry e ns) = insert e (set ns)"
  using ins_entry_split [of ns e] by auto

lemma sorted_ins_entry: "sorted (map e_key ns) \<Longrightarrow> sorted (map e_key (ins_entry e ns))"
  using ins_entry_split [of ns e] by (fastforce simp: sorted_append)

lemma distinct_ins_entry:
  "sorted (map e_key ns) \<Longrightarrow> distinct (h # map e_addr ns) \<Longrightarrow> e_addr e \<notin> set (h # map e_addr ns) \<Longrightarrow>
   distinct (h # map e_addr (ins_entry e ns))"
  using ins_entry_split [of ns e] by auto

lemma lvl_Cons: "lvl i (e # ns) = (if i \<le> e_height e then [e] else []) @ lvl i ns"
  by (simp add: lvl_def)

lemma lvl_ins_entry:
  "lvl i (ins_entry e ns) =
     below (e_key e) (lvl i ns) @ (if i \<le> e_height e then [e] else []) @
     equal_to (e_key e) (lvl i ns) @ above (e_key e) (lvl i ns)"
  unfolding ins_entry_def lvl_append lvl_Cons lvl_below lvl_equal_to lvl_above by simp

lemma del_key_below: "del_key k (below k ns) = below k ns"
  by (auto simp: del_key_def below_def intro: filter_cong)

lemma del_key_above: "del_key k (above k ns) = above k ns"
  by (auto simp: del_key_def above_def intro: filter_cong)

lemma del_key_equal_to: "del_key k (equal_to k ns) = []"
  by (simp add: del_key_def equal_to_def)

lemma del_key_append: "del_key k (xs @ ys) = del_key k xs @ del_key k ys"
  by (simp add: del_key_def)

lemma del_key_split: "sorted (map e_key ns) \<Longrightarrow> below k ns @ above k ns = del_key k ns"
proof -
  assume "sorted (map e_key ns)"
  then have "del_key k ns = del_key k (below k ns @ equal_to k ns @ above k ns)"
    by (simp add: sorted_split3)
  also have "\<dots> = below k ns @ above k ns"
    by (simp add: del_key_append del_key_below del_key_above del_key_equal_to)
  finally show ?thesis by simp
qed

lemma lvl_del_key: "lvl i (del_key k ns) = del_key k (lvl i ns)"
  by (auto simp: lvl_def del_key_def intro: filter_cong)

lemma getitem_inv:
  assumes "inv (H, sl) ns"
  shows "(k \<notin> e_key ` set ns \<and> getitem (H, sl) k = Some (Inl (KeyError k))) \<or>
         (\<exists>e\<in>set ns. e_key e = k \<and> getitem (H, sl) k = Some (Inr (e_val e)))"
proof -
  have a: "\<forall>j\<le>level sl. path (cells H) j (head sl) (map e_addr (lvl j ns))"
    and b: "\<forall>e\<in>set ns. holds (cells H) e" and c: "sorted (map e_key ns)"
    using assms by (auto simp: inv_def)
  have d: "head sl \<in> set (head sl # map e_addr (below k (lvl (level sl) ns)))" by simp
  show ?thesis
    using getitem_for_correct [OF a b c d] by (simp add: getitem_def)
qed

lemma insert_key_inv:
  assumes "inv (H, sl) ns"
    and "e = Entry (free H) h k v"
    and "sl' = sl\<lparr>level := max (level sl) h, size_sl := size_sl sl + 1\<rparr>"
  shows "\<exists>c'. insert_key h k v (H, sl) = Some (Inr (\<lparr>cells = c', free = Suc (free H)\<rparr>, sl')) \<and>
           inv (\<lparr>cells = c', free = Suc (free H)\<rparr>, sl') (ins_entry e ns) \<and>
           dom (nxt (c' (free H))) = {..h} \<and>
           (tight (H, sl) ns \<longrightarrow> tight (\<lparr>cells = c', free = Suc (free H)\<rparr>, sl') (ins_entry e ns)) \<and>
           (bounded (H, sl) ns \<longrightarrow> bounded (\<lparr>cells = c', free = Suc (free H)\<rparr>, sl') (ins_entry e ns))"
proof -
  define new where "new = free H"
  define c0 where "c0 = (cells H)(new := \<lparr>pair = Some \<lparr>key = k, val = v\<rparr>, nxt = Map.empty\<rparr>)"
  have hd: "head sl < free H" and di: "distinct (head sl # map e_addr ns)"
    and so: "sorted (map e_key ns)"
    and en: "\<forall>e\<in>set ns. e_addr e < free H \<and> holds (cells H) e \<and> e_height e \<le> level sl"
    and pa: "\<forall>i. path (cells H) i (head sl) (map e_addr (lvl i ns))"
    using assms(1) by (auto simp: inv_def)
  have nn: "new \<notin> set (head sl # map e_addr ns)" using hd en by (auto simp: new_def)
  have h0: "\<forall>e\<in>set ns. holds c0 e" using en nn by (auto simp: c0_def holds_def)
  have p0: "path c0 j (head sl) (map e_addr (lvl j ns))" for j
  proof -
    have "path c0 j (head sl) (map e_addr (lvl j ns)) = path (cells H) j (head sl) (map e_addr (lvl j ns))"
      using nn by (intro path_frame) (auto simp: c0_def lvl_def)
    then show ?thesis using pa by simp
  qed
  then have p0': "\<forall>j\<le>h. path c0 j (head sl) (map e_addr (lvl j ns))" by simp
  have x0: "head sl \<in> set (head sl # map e_addr (below k (lvl h ns)))" by simp
  from insert_for_correct [OF so di nn h0 p0' x0] obtain c' where
    r: "insert_for new k h c0 (head sl) = Some (Inr c')"
    and pl: "\<forall>j\<le>h. path c' j (head sl) (map e_addr (below k (lvl j ns)) @
                              new # map e_addr (equal_to k (lvl j ns) @ above k (lvl j ns)))"
    and fr: "\<forall>j a. h < j \<longrightarrow> get (nxt (c' a)) j = get (nxt (c0 a)) j"
    and pr: "\<forall>a. pair (c' a) = pair (c0 a)"
    and dn: "dom (nxt (c' new)) = dom (nxt (c0 new)) \<union> {..h}"
    and dold: "\<forall>e\<in>set ns. {..e_height e} \<subseteq> dom (nxt (c0 (e_addr e))) \<longrightarrow>
                   dom (nxt (c' (e_addr e))) = dom (nxt (c0 (e_addr e)))"
    and da: "\<forall>a. dom (nxt (c' a)) \<subseteq> dom (nxt (c0 a)) \<union> {..h}"
    by blast
  let ?H' = "\<lparr>cells = c', free = Suc (free H)\<rparr>"
  have sl1: "(if level sl < h then sl\<lparr>level := h\<rparr> else sl) = sl\<lparr>level := max (level sl) h\<rparr>"
    by (simp add: max_def)
  have res: "insert_key h k v (H, sl) = Some (Inr (?H', sl'))"
    using r by (simp add: insert_key_def Let_def new_def [symmetric] c0_def [symmetric] sl1 assms(3))
  have ek: "e_key e = k" "e_addr e = new" "e_height e = h" "e_val e = v"
    by (simp_all add: assms(2) new_def)
  have i1: "distinct (head sl # map e_addr (ins_entry e ns))"
    using distinct_ins_entry [OF so di] nn ek by simp
  have i2: "sorted (map e_key (ins_entry e ns))" by (rule sorted_ins_entry [OF so])
  have i3: "\<forall>x\<in>set (ins_entry e ns). e_addr x < Suc (free H) \<and> holds c' x \<and> e_height x \<le> level sl'"
  proof
    fix x assume "x \<in> set (ins_entry e ns)"
    then have "x = e \<or> x \<in> set ns" by (simp add: set_ins_entry [OF so])
    then show "e_addr x < Suc (free H) \<and> holds c' x \<and> e_height x \<le> level sl'"
    proof
      assume "x = e"
      then show ?thesis using pr by (simp add: assms(2,3) holds_def c0_def new_def)
    next
      assume "x \<in> set ns"
      then show ?thesis using en h0 pr by (auto simp: holds_def assms(3))
    qed
  qed
  have i4: "path c' i (head sl) (map e_addr (lvl i (ins_entry e ns)))" for i
  proof (cases "i \<le> h")
    case True
    then show ?thesis using pl ek by (simp add: lvl_ins_entry)
  next
    case False
    then have "path c' i (head sl) (map e_addr (lvl i ns)) = path c0 i (head sl) (map e_addr (lvl i ns))"
      using fr by (intro path_frame) simp
    moreover have "lvl i (ins_entry e ns) = lvl i ns"
      using False ek sorted_split3 [OF sorted_lvl [OF so], of k i] by (simp add: lvl_ins_entry)
    ultimately show ?thesis using p0 by simp
  qed
  have inv': "inv (?H', sl') (ins_entry e ns)"
    using hd i1 i2 i3 i4 by (simp add: inv_def assms(3))
  have d1: "dom (nxt (c' (free H))) = {..h}"
    using dn by (simp add: c0_def new_def)
  have t: "tight (?H', sl') (ins_entry e ns)" if "tight (H, sl) ns"
    unfolding tight_def
  proof (clarsimp simp: set_ins_entry [OF so], intro conjI ballI)
    show "dom (nxt (c' (e_addr e))) = {..e_height e}" using d1 ek by (simp add: new_def)
  next
    fix x assume x: "x \<in> set ns"
    then have "dom (nxt (cells H (e_addr x))) = {..e_height x}" using that by (simp add: tight_def)
    moreover have "e_addr x \<noteq> new" using x nn by auto
    ultimately have "dom (nxt (c0 (e_addr x))) = {..e_height x}" by (simp add: c0_def)
    then show "dom (nxt (c' (e_addr x))) = {..e_height x}" using dold x by simp
  qed
  have b: "bounded (?H', sl') (ins_entry e ns)" if bd: "bounded (H, sl) ns"
  proof -
    have "dom (nxt (c' (e_addr x))) \<subseteq> {..level sl'}" if x: "x \<in> set (ins_entry e ns)" for x
    proof -
      from x have "x = e \<or> x \<in> set ns" by (simp add: set_ins_entry [OF so])
      then show ?thesis
      proof
        assume "x = e"
        then show ?thesis using d1 ek by (auto simp: new_def assms(3))
      next
        assume xn: "x \<in> set ns"
        then have "dom (nxt (cells H (e_addr x))) \<subseteq> {..level sl}" using bd by (simp add: bounded_def)
        moreover have "e_addr x \<noteq> new" using xn nn by auto
        ultimately have "dom (nxt (c0 (e_addr x))) \<subseteq> {..level sl}" by (simp add: c0_def)
        moreover have "dom (nxt (c' (e_addr x))) \<subseteq> dom (nxt (c0 (e_addr x))) \<union> {..h}"
          using da by blast
        ultimately show ?thesis by (fastforce simp: assms(3))
      qed
    qed
    then show ?thesis by (simp add: bounded_def)
  qed
  show ?thesis using res inv' d1 t b by blast
qed

lemma delete_key_inv:
  assumes "inv (H, sl) ns"
    and "sl' = (if k \<in> e_key ` set ns then sl\<lparr>size_sl := size_sl sl - 1\<rparr> else sl)"
  shows "\<exists>c'. delete_key k (H, sl) = Some (Inr (H\<lparr>cells := c'\<rparr>, sl')) \<and>
           inv (H\<lparr>cells := c'\<rparr>, sl') (del_key k ns) \<and>
           (k \<notin> e_key ` set ns \<longrightarrow> c' = cells H) \<and>
           (tight (H, sl) ns \<longrightarrow> tight (H\<lparr>cells := c'\<rparr>, sl') (del_key k ns)) \<and>
           (bounded (H, sl) ns \<longrightarrow> bounded (H\<lparr>cells := c'\<rparr>, sl') (del_key k ns))"
proof -
  have hd: "head sl < free H" and di: "distinct (head sl # map e_addr ns)"
    and so: "sorted (map e_key ns)"
    and en: "\<forall>e\<in>set ns. e_addr e < free H \<and> holds (cells H) e \<and> e_height e \<le> level sl"
    and pa: "\<forall>i. path (cells H) i (head sl) (map e_addr (lvl i ns))"
    using assms(1) by (auto simp: inv_def)
  have h0: "\<forall>e\<in>set ns. holds (cells H) e" using en by simp
  have p0: "\<forall>j\<le>level sl. path (cells H) j (head sl) (map e_addr (lvl j ns))" using pa by simp
  have x0: "head sl \<in> set (head sl # map e_addr (below k (lvl (level sl) ns)))" by simp
  from delete_for_correct [OF so di h0 p0 x0, of False] obtain c' where
    r: "delete_for k (level sl) (cells H) (head sl) False = Some (Inr (c', equal_to k ns \<noteq> []))"
    and pl: "\<forall>j\<le>level sl. path c' j (head sl) (map e_addr (below k (lvl j ns) @ above k (lvl j ns)))"
    and fr: "\<forall>j a. level sl < j \<longrightarrow> get (nxt (c' a)) j = get (nxt (cells H a)) j"
    and pr: "\<forall>a. pair (c' a) = pair (cells H a)"
    and un: "equal_to k ns = [] \<longrightarrow> c' = cells H"
    and dold: "\<forall>e\<in>set ns. {..e_height e} \<subseteq> dom (nxt (cells H (e_addr e))) \<longrightarrow>
                   dom (nxt (c' (e_addr e))) = dom (nxt (cells H (e_addr e)))"
    and da: "\<forall>a. dom (nxt (c' a)) \<subseteq> dom (nxt (cells H a)) \<union> {..level sl}"
    by auto
  have eq: "(equal_to k ns \<noteq> []) = (k \<in> e_key ` set ns)"
    by (auto simp: equal_to_def filter_empty_conv)
  have res: "delete_key k (H, sl) = Some (Inr (H\<lparr>cells := c'\<rparr>, sl'))"
    using r eq by (simp add: delete_key_def assms(2))
  have hl: "head sl' = head sl" "level sl' = level sl" by (simp_all add: assms(2))
  have i1: "distinct (head sl # map e_addr (del_key k ns))"
    using di by (auto simp: del_key_def distinct_map_filter)
  have i2: "sorted (map e_key (del_key k ns))"
    using so by (simp add: del_key_def sorted_map sorted_wrt_filter)
  have i3: "\<forall>x\<in>set (del_key k ns). e_addr x < free H \<and> holds c' x \<and> e_height x \<le> level sl"
    using en pr by (auto simp: del_key_def holds_def)
  have i4: "path c' i (head sl) (map e_addr (lvl i (del_key k ns)))" for i
  proof (cases "i \<le> level sl")
    case True
    then have "path c' i (head sl) (map e_addr (below k (lvl i ns) @ above k (lvl i ns)))"
      using pl by blast
    then show ?thesis
      by (simp only: del_key_split [OF sorted_lvl [OF so]] lvl_del_key)
  next
    case False
    then have e1: "lvl i ns = []" using en by (auto simp: lvl_def filter_empty_conv)
    then have e2: "lvl i (del_key k ns) = []" by (simp only: lvl_del_key) (simp add: del_key_def)
    have "path c' i (head sl) [] = path (cells H) i (head sl) []"
      using fr False by (intro path_frame) simp
    then show ?thesis using pa [rule_format, of i] e1 e2 by simp
  qed
  have inv': "inv (H\<lparr>cells := c'\<rparr>, sl') (del_key k ns)"
    using hd i1 i2 i3 i4 by (simp add: inv_def hl)
  have t: "tight (H\<lparr>cells := c'\<rparr>, sl') (del_key k ns)" if "tight (H, sl) ns"
    using that dold by (auto simp: tight_def del_key_def)
  have b: "bounded (H\<lparr>cells := c'\<rparr>, sl') (del_key k ns)" if bd: "bounded (H, sl) ns"
  proof -
    have "dom (nxt (c' (e_addr x))) \<subseteq> {..level sl'}" if x: "x \<in> set (del_key k ns)" for x
    proof -
      from x have "x \<in> set ns" by (simp add: del_key_def)
      then have "dom (nxt (cells H (e_addr x))) \<subseteq> {..level sl}" using bd by (simp add: bounded_def)
      moreover have "dom (nxt (c' (e_addr x))) \<subseteq> dom (nxt (cells H (e_addr x))) \<union> {..level sl}"
        using da by blast
      ultimately show ?thesis unfolding hl by blast
    qed
    then show ?thesis by (simp add: bounded_def)
  qed
  show ?thesis using res inv' un eq t b by blast
qed

lemma step_inv:
  assumes "inv s ns"
  shows "\<exists>s'. step x s = Some (Inr s') \<and> inv s' (snd (abs_step x (free (fst s), ns))) \<and>
           free (fst s') = fst (abs_step x (free (fst s), ns)) \<and>
           head (snd s') = head (snd s) \<and>
           level (snd s') = level_after [x] (level (snd s)) \<and>
           (tight s ns \<longrightarrow> tight s' (snd (abs_step x (free (fst s), ns)))) \<and>
           (bounded s ns \<longrightarrow> bounded s' (snd (abs_step x (free (fst s), ns))))"
proof (cases s)
  case (Pair H sl)
  show ?thesis
  proof (cases x)
    case (Insert h k v)
    from insert_key_inv [OF assms [unfolded Pair] refl refl, of h k v]
    show ?thesis unfolding Pair Insert by auto
  next
    case (Delete k)
    from delete_key_inv [OF assms [unfolded Pair] refl, of k]
    show ?thesis unfolding Pair Delete by auto
  qed
qed

lemma run_inv:
  assumes "inv s ns"
  shows "\<exists>s'. run xs s = Some (Inr s') \<and> inv s' (snd (abs_run xs (free (fst s), ns))) \<and>
           free (fst s') = fst (abs_run xs (free (fst s), ns)) \<and>
           head (snd s') = head (snd s) \<and>
           level (snd s') = level_after xs (level (snd s)) \<and>
           (tight s ns \<longrightarrow> tight s' (snd (abs_run xs (free (fst s), ns)))) \<and>
           (bounded s ns \<longrightarrow> bounded s' (snd (abs_run xs (free (fst s), ns))))"
  using assms
proof (induction xs arbitrary: s ns)
  case Nil
  then show ?case by simp
next
  case (Cons x xs)
  from step_inv [OF Cons.prems, of x] obtain s1 where
    s1: "step x s = Some (Inr s1)" "inv s1 (snd (abs_step x (free (fst s), ns)))"
      "free (fst s1) = fst (abs_step x (free (fst s), ns))"
      "head (snd s1) = head (snd s)"
      "level (snd s1) = level_after [x] (level (snd s))"
      "tight s ns \<longrightarrow> tight s1 (snd (abs_step x (free (fst s), ns)))"
      "bounded s ns \<longrightarrow> bounded s1 (snd (abs_step x (free (fst s), ns)))"
    by blast
  have l: "level_after xs (level_after [x] l) = level_after (x # xs) l" for l
    by (cases x) simp_all
  from Cons.IH [OF s1(2)] s1 show ?case by (auto simp: l)
qed

lemma step_count:
  assumes "inv s ns" "step x s = Some (Inr s')"
  shows "size_sl (snd s') = count_step x ns (size_sl (snd s))"
proof (cases s)
  case (Pair H sl)
  show ?thesis
  proof (cases x)
    case (Insert h k v)
    from insert_key_inv [OF assms(1) [unfolded Pair] refl refl, of h k v] assms(2)
    show ?thesis unfolding Pair Insert by auto
  next
    case (Delete k)
    from delete_key_inv [OF assms(1) [unfolded Pair] refl, of k] assms(2)
    show ?thesis unfolding Pair Delete by auto
  qed
qed

lemma set_ins_entry_any: "set (ins_entry e ns) = insert e (set ns)"
  by (auto simp: ins_entry_def below_def equal_to_def above_def)

lemma keys_abs_step:
  "e_key ` set (snd (abs_step x (f, ns))) =
     (case x of Insert h k v \<Rightarrow> insert k (e_key ` set ns) | Delete k \<Rightarrow> e_key ` set ns - {k})"
  by (cases x) (auto simp: set_ins_entry_any del_key_def)

lemma keys_abs_run:
  "e_key ` set (snd (abs_run xs (f, ns))) \<subseteq> e_key ` set ns \<union> inserted_keys xs"
proof (induction xs arbitrary: f ns)
  case Nil
  then show ?case by simp
next
  case (Cons x xs)
  obtain f' ns' where a: "abs_step x (f, ns) = (f', ns')" by (cases "abs_step x (f, ns)")
  have "e_key ` set ns' \<subseteq> e_key ` set ns \<union> inserted_keys [x]"
    using keys_abs_step [of x f ns] a by (cases x) (auto simp: inserted_keys_def)
  moreover have "inserted_keys [x] \<union> inserted_keys xs = inserted_keys (x # xs)"
    by (auto simp: inserted_keys_def)
  moreover have "e_key ` set (snd (abs_run xs (f', ns'))) \<subseteq> e_key ` set ns' \<union> inserted_keys xs"
    by (rule Cons.IH)
  ultimately have "e_key ` set (snd (abs_run xs (f', ns'))) \<subseteq> e_key ` set ns \<union> inserted_keys (x # xs)"
    by blast
  then show ?case using a by simp
qed

lemma sorted_abs_step:
  "sorted (map e_key ns) \<Longrightarrow> sorted (map e_key (snd (abs_step x (f, ns))))"
proof (cases x)
  case (Insert h k v)
  assume "sorted (map e_key ns)"
  then show ?thesis using Insert by (simp add: sorted_ins_entry)
next
  case (Delete k)
  assume "sorted (map e_key ns)"
  then show ?thesis using Delete by (simp add: del_key_def sorted_map sorted_wrt_filter)
qed

lemma contents_ins_entry:
  assumes "sorted (map e_key ns)"
  shows "contents (ins_entry e ns) = (contents ns)(e_key e \<mapsto> e_val e)"
proof -
  from ins_entry_split [OF assms, of e] obtain b a where
    s: "ns = b @ a" "ins_entry e ns = b @ e # a" "\<forall>x\<in>set b. e_key x < e_key e"
    by blast
  have n: "map_of (map (\<lambda>e. (e_key e, e_val e)) b) (e_key e) = None"
    using s(3) by (auto simp: map_of_eq_None_iff image_iff)
  show ?thesis
    unfolding contents_def s(2) unfolding s(1)
    using n by (auto simp: map_add_def fun_eq_iff split: option.splits)
qed

lemma contents_del_key: "contents (del_key k ns) = (contents ns)(k := None)"
  by (induction ns) (auto simp: contents_def del_key_def)

lemma distinct_keys_ins_entry:
  assumes "sorted (map e_key ns)" "distinct (map e_key ns)" "e_key e \<notin> e_key ` set ns"
  shows "distinct (map e_key (ins_entry e ns))"
  using ins_entry_split [OF assms(1), of e] assms(2,3) by auto

lemma length_ins_entry: "sorted (map e_key ns) \<Longrightarrow> length (ins_entry e ns) = Suc (length ns)"
  using ins_entry_split [of ns e] by auto

lemma length_del_key:
  "distinct (map e_key ns) \<Longrightarrow>
   int (length (del_key k ns)) = int (length ns) - (if k \<in> e_key ` set ns then 1 else 0)"
proof (induction ns)
  case Nil
  then show ?case by (simp add: del_key_def)
next
  case (Cons e ns)
  then show ?case by (auto simp: del_key_def)
qed

lemma abs_step_strict:
  assumes "sorted (map e_key ns)" "distinct (map e_key ns)" "fresh_keys [x] (e_key ` set ns)"
  shows "distinct (map e_key (snd (abs_step x (f, ns))))"
    and "contents (snd (abs_step x (f, ns))) = model [x] (contents ns)"
    and "count_step x ns n - int (length (snd (abs_step x (f, ns)))) = n - int (length ns)"
proof -
  show "distinct (map e_key (snd (abs_step x (f, ns))))"
    using assms by (cases x) (auto simp: distinct_keys_ins_entry del_key_def distinct_map_filter)
  show "contents (snd (abs_step x (f, ns))) = model [x] (contents ns)"
    using assms(1) by (cases x) (simp_all add: contents_ins_entry contents_del_key)
  show "count_step x ns n - int (length (snd (abs_step x (f, ns)))) = n - int (length ns)"
    using assms(1,2) length_del_key [OF assms(2)]
    by (cases x) (simp_all add: length_ins_entry)
qed

lemma model_Cons: "model (x # xs) m = model xs (model [x] m)"
  by (cases x) simp_all

lemma fresh_keys_Cons:
  "fresh_keys (x # xs) (e_key ` set ns) =
     (fresh_keys [x] (e_key ` set ns) \<and> fresh_keys xs (e_key ` set (snd (abs_step x (f, ns)))))"
  using keys_abs_step [of x f ns] by (cases x) simp_all

lemma inv_empty_list: "inv empty_list []"
  by (simp add: inv_def empty_list_def lvl_def get_def)

lemma tight_empty_list: "tight empty_list []"
  by (simp add: tight_def empty_list_def)

lemma inv_example_list: "inv example_list example_entries"
proof -
  have "path (cells (fst example_list)) i 0 (map e_addr (lvl i example_entries))" for i
  proof -
    consider "i = 0" | "i = 1" | "i = 2" | "3 \<le> i" by linarith
    then show ?thesis
      by cases (simp_all add: example_list_def example_entries_def lvl_def get_def)
  qed
  then show ?thesis
    by (simp add: inv_def example_list_def example_entries_def holds_def)
qed

lemma inv_level:
  assumes "inv s ns"
  shows "path (cells (fst s)) i (head (snd s)) (map e_addr (lvl i ns))"
    and "map (key_at (cells (fst s))) (map e_addr (lvl i ns)) = map Some (map e_key (lvl i ns))"
proof -
  obtain H sl where s: "s = (H, sl)" by (cases s)
  show "path (cells (fst s)) i (head (snd s)) (map e_addr (lvl i ns))"
    using assms by (simp add: s inv_def)
  have "\<forall>e\<in>set (lvl i ns). holds (cells H) e" using assms by (auto simp: s inv_def lvl_def)
  then show "map (key_at (cells (fst s))) (map e_addr (lvl i ns)) = map Some (map e_key (lvl i ns))"
    by (simp add: s key_at_def holds_def)
qed

lemma inv_sorted: "inv s ns \<Longrightarrow> sorted (map e_key ns)"
  by (cases s) (simp add: inv_def)

lemma getitem_inv':
  assumes "inv s ns"
  shows "(k \<notin> e_key ` set ns \<and> getitem s k = Some (Inl (KeyError k))) \<or>
         (\<exists>e\<in>set ns. e_key e = k \<and> getitem s k = Some (Inr (e_val e)))"
  using getitem_inv [of "fst s" "snd s" ns k] assms by simp

lemma getitem_contents:
  assumes "inv s ns" "distinct (map e_key ns)"
  shows "getitem s k = (case contents ns k of Some v \<Rightarrow> Some (Inr v) | None \<Rightarrow> Some (Inl (KeyError k)))"
proof -
  from getitem_inv' [OF assms(1), of k] show ?thesis
  proof
    assume a: "k \<notin> e_key ` set ns \<and> getitem s k = Some (Inl (KeyError k))"
    then have "contents ns k = None"
      by (auto simp: contents_def map_of_eq_None_iff image_iff)
    with a show ?thesis by simp
  next
    assume "\<exists>e\<in>set ns. e_key e = k \<and> getitem s k = Some (Inr (e_val e))"
    then obtain e where e: "e \<in> set ns" "e_key e = k" "getitem s k = Some (Inr (e_val e))" by blast
    have "distinct (map fst (map (\<lambda>e. (e_key e, e_val e)) ns))"
      using assms(2) by (simp add: comp_def)
    moreover have "(k, e_val e) \<in> set (map (\<lambda>e. (e_key e, e_val e)) ns)" using e(1,2) by force
    ultimately have "contents ns k = Some (e_val e)"
      unfolding contents_def by (rule map_of_is_SomeI)
    with e(3) show ?thesis by simp
  qed
qed

lemma run_strict_all:
  assumes "inv s ns" "distinct (map e_key ns)" "fresh_keys xs (e_key ` set ns)"
    and "run xs s = Some (Inr s')"
  shows "distinct (map e_key (snd (abs_run xs (free (fst s), ns)))) \<and>
         contents (snd (abs_run xs (free (fst s), ns))) = model xs (contents ns) \<and>
         size_sl (snd s') - int (length (snd (abs_run xs (free (fst s), ns)))) =
         size_sl (snd s) - int (length ns)"
  using assms
proof (induction xs arbitrary: s ns)
  case Nil
  then show ?case by simp
next
  case (Cons x xs)
  define ns1 where "ns1 = snd (abs_step x (free (fst s), ns))"
  from step_inv [OF Cons.prems(1), of x] obtain s1 where
    s1: "step x s = Some (Inr s1)" "inv s1 ns1" "free (fst s1) = fst (abs_step x (free (fst s), ns))"
    unfolding ns1_def by blast
  have a: "abs_step x (free (fst s), ns) = (free (fst s1), ns1)"
    using s1(3) by (simp add: ns1_def prod_eq_iff)
  have f: "fresh_keys [x] (e_key ` set ns)" "fresh_keys xs (e_key ` set ns1)"
    using Cons.prems(3) fresh_keys_Cons [of x xs ns "free (fst s)"] by (simp_all add: ns1_def)
  have so: "sorted (map e_key ns)" by (rule inv_sorted [OF Cons.prems(1)])
  have d1: "distinct (map e_key ns1)"
    unfolding ns1_def by (rule abs_step_strict(1) [OF so Cons.prems(2) f(1)])
  have c1: "contents ns1 = model [x] (contents ns)"
    unfolding ns1_def by (rule abs_step_strict(2) [OF so Cons.prems(2) f(1)])
  have n1: "size_sl (snd s1) - int (length ns1) = size_sl (snd s) - int (length ns)"
    using abs_step_strict(3) [OF so Cons.prems(2) f(1), of "size_sl (snd s)" "free (fst s)"]
      step_count [OF Cons.prems(1) s1(1)] by (simp add: ns1_def)
  have r1: "run xs s1 = Some (Inr s')" using Cons.prems(4) s1(1) by simp
  show ?case
    using Cons.IH [OF s1(2) d1 f(2) r1] a c1 n1 model_Cons [of x xs "contents ns"] by simp
qed

lemma run_strict:
  assumes "inv s ns" "distinct (map e_key ns)" "fresh_keys xs (e_key ` set ns)"
    and "run xs s = Some (Inr s')"
  shows "distinct (map e_key (snd (abs_run xs (free (fst s), ns))))"
    and "contents (snd (abs_run xs (free (fst s), ns))) = model xs (contents ns)"
    and "size_sl (snd s') - int (length (snd (abs_run xs (free (fst s), ns)))) =
         size_sl (snd s) - int (length ns)"
  using run_strict_all [OF assms] by simp_all

lemma node_level_atMost: "dom (nxt n) = {..h} \<Longrightarrow> node_level n = Inr h"
  by (auto simp: node_level_def intro: Max_eqI)

lemma inv_absent:
  assumes "inv s ns" "path (cells (fst s)) 0 (head (snd s)) as"
  shows "key_at (cells (fst s)) ` set as = Some ` e_key ` set ns"
proof -
  have "as = map e_addr ns"
    using path_unique [OF assms(2) inv_level(1) [OF assms(1), of 0]] by simp
  moreover have "map (key_at (cells (fst s))) (map e_addr ns) = map Some (map e_key ns)"
    using inv_level(2) [OF assms(1), of 0] by simp
  ultimately have "map (key_at (cells (fst s))) as = map Some (map e_key ns)" by simp
  then have "set (map (key_at (cells (fst s))) as) = set (map Some (map e_key ns))" by simp
  then show ?thesis by (simp add: image_image)
qed

lemma insert_key_state:
  assumes "inv s ns"
  shows "\<exists>s'. insert_key h k v s = Some (Inr s') \<and>
           inv s' (ins_entry (Entry (free (fst s)) h k v) ns) \<and>
           dom (nxt (cells (fst s') (free (fst s)))) = {..h} \<and>
           head (snd s') = head (snd s) \<and>
           level (snd s') = max (level (snd s)) h \<and>
           size_sl (snd s') = size_sl (snd s) + 1"
  using insert_key_inv [of "fst s" "snd s" ns _ h k v, OF _ refl refl] assms by auto

lemma delete_key_state:
  assumes "inv s ns"
  shows "\<exists>s'. delete_key k s = Some (Inr s') \<and>
           inv s' (del_key k ns) \<and>
           head (snd s') = head (snd s) \<and>
           level (snd s') = level (snd s) \<and>
           size_sl (snd s') = (if k \<in> e_key ` set ns then size_sl (snd s) - 1 else size_sl (snd s)) \<and>
           (k \<notin> e_key ` set ns \<longrightarrow> s' = s)"
proof -
  obtain H sl where s: "s = (H, sl)" by (cases s)
  from delete_key_inv [OF assms [unfolded s] refl, of k] obtain c' where
    c: "delete_key k (H, sl) =
          Some (Inr (H\<lparr>cells := c'\<rparr>, if k \<in> e_key ` set ns then sl\<lparr>size_sl := size_sl sl - 1\<rparr> else sl))"
       "inv (H\<lparr>cells := c'\<rparr>, if k \<in> e_key ` set ns then sl\<lparr>size_sl := size_sl sl - 1\<rparr> else sl) (del_key k ns)"
       "k \<notin> e_key ` set ns \<longrightarrow> c' = cells H"
    by blast
  show ?thesis
    using c unfolding s by (intro exI [of _ "(H\<lparr>cells := c'\<rparr>, if k \<in> e_key ` set ns then sl\<lparr>size_sl := size_sl sl - 1\<rparr> else sl)"]) auto
qed

section \<open>The claims\<close>

text \<open>The equations that evaluate the operations on a given list.\<close>

lemmas run_eval = getitem_while.simps insert_while.simps delete_while.simps
  getitem_for.simps insert_for.simps delete_for.simps
  get_def getitem_def insert_key_def delete_key_def set_next_def Let_def empty_list_def

text \<open>
  Counterexample to C1 as stated: on the empty list, \<open>insert(5, ''old'')\<close> with height 1 and then
  \<open>insert(5, ''new'')\<close> with height 0 leave two nodes with key 5; the lookup meets the older one
  at level 1 and returns \<open>''old''\<close>.
\<close>

theorem lookup_most_recent_counterexample:
  "\<not> (\<forall>h1 h2 (k::int) (v1::string) v2 s1 s2.
        insert_key h1 k v1 empty_list = Some (Inr s1) \<longrightarrow>
        insert_key h2 k v2 s1 = Some (Inr s2) \<longrightarrow>
        getitem s2 k = Some (Inr v2))"
proof
  assume a: "\<forall>h1 h2 (k::int) (v1::string) v2 s1 s2.
        insert_key h1 k v1 empty_list = Some (Inr s1) \<longrightarrow>
        insert_key h2 k v2 s1 = Some (Inr s2) \<longrightarrow>
        getitem s2 k = Some (Inr v2)"
  have "\<exists>s1 s2. insert_key 1 (5::int) ''old'' empty_list = Some (Inr s1) \<and>
          insert_key 0 5 ''new'' s1 = Some (Inr s2) \<and> getitem s2 5 = Some (Inr ''old'')"
    by (simp add: run_eval)
  then show False using a by fastforce
qed

text \<open>
  C1, amended: after any sequence of \<open>insert\<close> and \<open>delete\<close> on a well-formed list with pairwise
  different keys, in which no \<open>insert\<close> has a key that is present at that moment, the lookup of
  every key returns the value most recently inserted for it and not deleted since, and raises
  \<open>KeyError\<close> for every other key.
\<close>

theorem lookup_most_recent_fresh_keys:
  assumes "inv s ns" "distinct (map e_key ns)" "fresh_keys xs (e_key ` set ns)"
  shows "\<exists>s'. run xs s = Some (Inr s') \<and>
           (\<forall>k. getitem s' k =
                  (case model xs (contents ns) k of
                     Some v \<Rightarrow> Some (Inr v) | None \<Rightarrow> Some (Inl (KeyError k))))"
proof -
  from run_inv [OF assms(1), of xs] obtain s' where
    s': "run xs s = Some (Inr s')" "inv s' (snd (abs_run xs (free (fst s), ns)))"
    by blast
  have "getitem s' k =
      (case model xs (contents ns) k of Some v \<Rightarrow> Some (Inr v) | None \<Rightarrow> Some (Inl (KeyError k)))" for k
    using getitem_contents [OF s'(2) run_strict(1) [OF assms s'(1)], of k]
      run_strict(2) [OF assms s'(1)] by simp
  with s'(1) show ?thesis by blast
qed

theorem lookup_most_recent_fresh_keys_witness:
  "\<exists>s'. run [Insert 1 (5::int) ''a'', Insert 0 7 ''b'', Delete 5, Insert 2 5 ''c''] empty_list = Some (Inr s') \<and>
         getitem s' 5 = Some (Inr ''c'') \<and> getitem s' 7 = Some (Inr ''b'') \<and>
         getitem s' 9 = Some (Inl (KeyError 9))"
proof -
  let ?xs = "[Insert 1 (5::int) ''a'', Insert 0 7 ''b'', Delete 5, Insert 2 5 ''c'']"
  have d: "distinct (map e_key ([] :: (int, string) entry list))" by simp
  have f: "fresh_keys ?xs (e_key ` set [])" by simp
  from lookup_most_recent_fresh_keys [OF inv_empty_list d f] obtain s' where
    s': "run ?xs empty_list = Some (Inr s')"
      "\<And>k. getitem s' k = (case model ?xs (contents []) k of
                     Some v \<Rightarrow> Some (Inr v) | None \<Rightarrow> Some (Inl (KeyError k)))"
    by blast
  have "getitem s' 5 = Some (Inr ''c'')" "getitem s' 7 = Some (Inr ''b'')"
    "getitem s' 9 = Some (Inl (KeyError 9))"
    by (simp_all add: s'(2) contents_def)
  with s'(1) show ?thesis by blast
qed

text \<open>
  C2: in every list reached from a well-formed one, the lookup of \<open>k\<close> raises \<open>KeyError\<close>
  exactly when no node of the level-0 chain has the key \<open>k\<close>, and returns a value when one has;
  in particular it raises \<open>KeyError\<close> for a key that was neither in the list at the start nor
  inserted.
\<close>

theorem getitem_KeyError_iff:
  assumes "inv s ns"
  shows "\<exists>s' as. run xs s = Some (Inr s') \<and>
           path (cells (fst s')) 0 (head (snd s')) as \<and>
           (\<forall>k. (getitem s' k = Some (Inl (KeyError k))) = (Some k \<notin> key_at (cells (fst s')) ` set as)) \<and>
           (\<forall>k. Some k \<in> key_at (cells (fst s')) ` set as \<longrightarrow> (\<exists>v. getitem s' k = Some (Inr v))) \<and>
           (\<forall>k. k \<notin> e_key ` set ns \<union> inserted_keys xs \<longrightarrow> getitem s' k = Some (Inl (KeyError k)))"
proof -
  define ns' where "ns' = snd (abs_run xs (free (fst s), ns))"
  from run_inv [OF assms, of xs] obtain s' where
    s': "run xs s = Some (Inr s')" "inv s' ns'"
    unfolding ns'_def by blast
  have p: "path (cells (fst s')) 0 (head (snd s')) (map e_addr ns')"
    using inv_level(1) [OF s'(2), of 0] by simp
  have ks: "key_at (cells (fst s')) ` set (map e_addr ns') = Some ` e_key ` set ns'"
    by (rule inv_absent [OF s'(2) p])
  have sub: "e_key ` set ns' \<subseteq> e_key ` set ns \<union> inserted_keys xs"
    unfolding ns'_def by (rule keys_abs_run)
  have g: "(k \<notin> e_key ` set ns' \<and> getitem s' k = Some (Inl (KeyError k))) \<or>
         (\<exists>e\<in>set ns'. e_key e = k \<and> getitem s' k = Some (Inr (e_val e)))" for k
    by (rule getitem_inv' [OF s'(2)])
  have a: "(getitem s' k = Some (Inl (KeyError k))) = (Some k \<notin> key_at (cells (fst s')) ` set (map e_addr ns'))" for k
    unfolding ks using g [of k] by auto
  have b: "Some k \<in> key_at (cells (fst s')) ` set (map e_addr ns') \<longrightarrow> (\<exists>v. getitem s' k = Some (Inr v))" for k
    unfolding ks using g [of k] by auto
  have c: "k \<notin> e_key ` set ns \<union> inserted_keys xs \<longrightarrow> getitem s' k = Some (Inl (KeyError k))" for k
    using g [of k] sub by auto
  show ?thesis using s'(1) p a b c by blast
qed

theorem getitem_KeyError_iff_witness:
  "getitem example_list 100 = Some (Inl (KeyError 100)) \<and>
   (\<exists>v. getitem example_list 7 = Some (Inr v)) \<and>
   (\<exists>s'. run [Delete 7] example_list = Some (Inr s') \<and> getitem s' 7 = Some (Inl (KeyError 7)))"
proof -
  from getitem_KeyError_iff [OF inv_example_list, of "[]"] obtain s' as where
    r: "run [] example_list = Some (Inr s')"
    and p: "path (cells (fst s')) 0 (head (snd s')) as"
    and a: "\<And>k. (getitem s' k = Some (Inl (KeyError k))) = (Some k \<notin> key_at (cells (fst s')) ` set as)"
    and b: "\<And>k. Some k \<in> key_at (cells (fst s')) ` set as \<Longrightarrow> \<exists>v. getitem s' k = Some (Inr v)"
    by blast
  have s: "s' = example_list" using r by simp
  have "path (cells (fst example_list)) 0 (head (snd example_list)) [1, 2, 3, 4, 5, 6, 7]"
    by (simp add: example_list_def get_def)
  then have as: "as = [1, 2, 3, 4, 5, 6, 7]" using p s path_unique by blast
  have k: "key_at (cells (fst example_list)) ` set [1, 2, 3, 4, 5, 6, 7] =
           {Some 1, Some 5, Some 7, Some 12, Some 15, Some 19, Some 24}"
    by (simp add: example_list_def key_at_def)
  have g1: "getitem example_list 100 = Some (Inl (KeyError 100))"
    using a [of 100] unfolding s as k by simp
  have g2: "\<exists>v. getitem example_list 7 = Some (Inr v)"
    using b [of 7] unfolding s as k by simp
  from getitem_KeyError_iff [OF inv_example_list, of "[Delete 7]"] obtain s2 as2 where
    r2: "run [Delete 7] example_list = Some (Inr s2)"
    and p2: "path (cells (fst s2)) 0 (head (snd s2)) as2"
    and a2: "\<And>k. (getitem s2 k = Some (Inl (KeyError k))) = (Some k \<notin> key_at (cells (fst s2)) ` set as2)"
    by blast
  have "\<exists>s'. run [Delete 7] example_list = Some (Inr s') \<and>
          path (cells (fst s')) 0 (head (snd s')) [1, 2, 4, 5, 6, 7] \<and>
          Some 7 \<notin> key_at (cells (fst s')) ` set [1, 2, 4, 5, 6, 7]"
    by (simp add: run_eval example_list_def key_at_def)
  then have q: "path (cells (fst s2)) 0 (head (snd s2)) [1, 2, 4, 5, 6, 7]"
    "Some 7 \<notin> key_at (cells (fst s2)) ` set [1, 2, 4, 5, 6, 7]"
    using r2 by auto
  have "as2 = [1, 2, 4, 5, 6, 7]" using p2 q(1) path_unique by blast
  then have "getitem s2 7 = Some (Inl (KeyError 7))"
    using a2 [of 7] q(2) by simp
  then show ?thesis using g1 g2 r2 by blast
qed

text \<open>
  Counterexample to C3 as stated: after \<open>insert(5, ''a'')\<close> and \<open>insert(5, ''b'')\<close> on the empty
  list, both at height 0, the level-0 chain has two nodes with the one key 5, and \<open>size\<close> is 2.
\<close>

theorem size_counts_keys_counterexample:
  "\<not> (\<forall>xs s as. run xs (empty_list :: (int, string) heap \<times> SkipList) = Some (Inr s) \<longrightarrow>
        path (cells (fst s)) 0 (head (snd s)) as \<longrightarrow>
        len (snd s) = int (card (key_at (cells (fst s)) ` set as)))"
proof
  assume a: "\<forall>xs s as. run xs (empty_list :: (int, string) heap \<times> SkipList) = Some (Inr s) \<longrightarrow>
        path (cells (fst s)) 0 (head (snd s)) as \<longrightarrow>
        len (snd s) = int (card (key_at (cells (fst s)) ` set as))"
  have "\<exists>s. run [Insert 0 (5::int) ''a'', Insert 0 5 ''b''] empty_list = Some (Inr s) \<and>
          path (cells (fst s)) 0 (head (snd s)) [2, 1] \<and>
          key_at (cells (fst s)) ` set [2, 1] = {Some 5} \<and> len (snd s) = 2"
    by (simp add: run_eval key_at_def len_def)
  then obtain s where s: "run [Insert 0 (5::int) ''a'', Insert 0 5 ''b''] empty_list = Some (Inr s)"
    "path (cells (fst s)) 0 (head (snd s)) [2, 1]"
    "key_at (cells (fst s)) ` set [2, 1] = {Some 5}" "len (snd s) = 2"
    by blast
  from a s(1,2) have "len (snd s) = int (card (key_at (cells (fst s)) ` set [2, 1]))" by blast
  then show False using s(3,4) by simp
qed

text \<open>
  C3, amended: starting from a well-formed list with pairwise different keys whose \<open>size\<close> is its
  number of nodes, after any sequence of \<open>insert\<close> and \<open>delete\<close> in which no \<open>insert\<close> has a
  key that is present at that moment, \<open>size\<close> is the number of nodes of the level-0 chain, which
  is the number of different keys there.
\<close>

theorem size_counts_keys_fresh:
  assumes "inv s ns" "distinct (map e_key ns)" "fresh_keys xs (e_key ` set ns)"
    and "size_sl (snd s) = int (length ns)"
  shows "\<exists>s' as. run xs s = Some (Inr s') \<and>
           path (cells (fst s')) 0 (head (snd s')) as \<and>
           len (snd s') = int (length as) \<and>
           len (snd s') = int (card (key_at (cells (fst s')) ` set as))"
proof -
  define ns' where "ns' = snd (abs_run xs (free (fst s), ns))"
  from run_inv [OF assms(1), of xs] obtain s' where
    s': "run xs s = Some (Inr s')" "inv s' ns'"
    unfolding ns'_def by blast
  have p: "path (cells (fst s')) 0 (head (snd s')) (map e_addr ns')"
    using inv_level(1) [OF s'(2), of 0] by simp
  have ks: "key_at (cells (fst s')) ` set (map e_addr ns') = Some ` e_key ` set ns'"
    by (rule inv_absent [OF s'(2) p])
  have d: "distinct (map e_key ns')"
    unfolding ns'_def by (rule run_strict(1) [OF assms(1,2,3) s'(1)])
  have n: "size_sl (snd s') = int (length ns')"
    using run_strict(3) [OF assms(1,2,3) s'(1)] assms(4) by (simp add: ns'_def)
  have "card (Some ` e_key ` set ns') = card (set (map e_key ns'))"
    by (simp add: card_image)
  also have "\<dots> = length ns'" using distinct_card [OF d] by simp
  finally have c: "card (key_at (cells (fst s')) ` set (map e_addr ns')) = length ns'"
    using ks by simp
  show ?thesis
    using s'(1) p n c by (intro exI [of _ s'] exI [of _ "map e_addr ns'"]) (simp add: len_def)
qed

theorem size_counts_keys_fresh_witness:
  "\<exists>s' as. run [Insert 1 14 ''14'', Delete 5, Delete 100, Delete 14, Insert 0 5 ''five''] example_list = Some (Inr s') \<and>
           path (cells (fst s')) 0 (head (snd s')) as \<and>
           len (snd s') = int (length as) \<and>
           len (snd s') = int (card (key_at (cells (fst s')) ` set as))"
proof -
  have d: "distinct (map e_key example_entries)" by (simp add: example_entries_def)
  have f: "fresh_keys [Insert 1 14 ''14'', Delete 5, Delete 100, Delete 14, Insert 0 5 ''five'']
             (e_key ` set example_entries)"
    by (simp add: example_entries_def)
  have c: "size_sl (snd example_list) = int (length example_entries)"
    by (simp add: example_entries_def example_list_def)
  show ?thesis by (rule size_counts_keys_fresh [OF inv_example_list d f c])
qed

text \<open>
  Counterexample to C4 as stated: after \<open>insert(1)\<close> at height 0, \<open>insert(2)\<close> at height 1 and
  \<open>delete(2)\<close> on the empty list, the only node left has height 0 and \<open>level\<close> is still 1.
\<close>

theorem level_is_max_height_counterexample:
  "\<not> (\<forall>xs s as. run xs (empty_list :: (int, string) heap \<times> SkipList) = Some (Inr s) \<longrightarrow>
        path (cells (fst s)) 0 (head (snd s)) as \<longrightarrow>
        (\<forall>a\<in>set as. \<exists>h. node_level (cells (fst s) a) = Inr h \<and> h \<le> level (snd s)) \<and>
        (as = [] \<longrightarrow> level (snd s) = 0) \<and>
        (as \<noteq> [] \<longrightarrow> (\<exists>a\<in>set as. node_level (cells (fst s) a) = Inr (level (snd s)))))"
proof
  assume a: "\<forall>xs s as. run xs (empty_list :: (int, string) heap \<times> SkipList) = Some (Inr s) \<longrightarrow>
        path (cells (fst s)) 0 (head (snd s)) as \<longrightarrow>
        (\<forall>a\<in>set as. \<exists>h. node_level (cells (fst s) a) = Inr h \<and> h \<le> level (snd s)) \<and>
        (as = [] \<longrightarrow> level (snd s) = 0) \<and>
        (as \<noteq> [] \<longrightarrow> (\<exists>a\<in>set as. node_level (cells (fst s) a) = Inr (level (snd s))))"
  have "\<exists>s. run [Insert 0 (1::int) ''a'', Insert 1 2 ''b'', Delete 2] empty_list = Some (Inr s) \<and>
          path (cells (fst s)) 0 (head (snd s)) [1] \<and>
          node_level (cells (fst s) 1) = Inr 0 \<and> level (snd s) = 1"
    by (simp add: run_eval node_level_def)
  then obtain s where s: "run [Insert 0 (1::int) ''a'', Insert 1 2 ''b'', Delete 2] empty_list = Some (Inr s)"
    "path (cells (fst s)) 0 (head (snd s)) [1]"
    "node_level (cells (fst s) 1) = Inr 0" "level (snd s) = 1"
    by blast
  from a s(1,2) have "\<exists>a\<in>set [1]. node_level (cells (fst s) a) = Inr (level (snd s))" by blast
  then show False using s(3,4) by simp
qed

text \<open>
  C4, amended: in every list reached from a well-formed one, no node is linked at a level above
  \<open>level\<close>, and \<open>level\<close> is the maximum of its value at the start and of the heights of all
  inserts since: \<open>delete\<close> leaves it as it is. When no node's \<open>next\<close> has a key above \<open>level\<close>
  at the start, no node's height (its \<open>level\<close> property) exceeds \<open>level\<close> afterwards.
\<close>

theorem level_bounds_heights:
  assumes "inv s ns"
  shows "\<exists>s' as. run xs s = Some (Inr s') \<and>
           path (cells (fst s')) 0 (head (snd s')) as \<and>
           level (snd s') = level_after xs (level (snd s)) \<and>
           (\<forall>i. level (snd s') < i \<longrightarrow> path (cells (fst s')) i (head (snd s')) []) \<and>
           (bounded s ns \<longrightarrow>
              (\<forall>a\<in>set as. \<forall>h. node_level (cells (fst s') a) = Inr h \<longrightarrow> h \<le> level (snd s')))"
proof -
  define ns' where "ns' = snd (abs_run xs (free (fst s), ns))"
  from run_inv [OF assms(1), of xs] obtain s' where
    s': "run xs s = Some (Inr s')" "inv s' ns'"
      "level (snd s') = level_after xs (level (snd s))"
      "bounded s ns \<longrightarrow> bounded s' ns'"
    unfolding ns'_def by blast
  have p: "path (cells (fst s')) 0 (head (snd s')) (map e_addr ns')"
    using inv_level(1) [OF s'(2), of 0] by simp
  have hs: "\<forall>e\<in>set ns'. e_height e \<le> level (snd s')"
    using s'(2) by (cases s') (simp add: inv_def)
  have top: "path (cells (fst s')) i (head (snd s')) []" if "level (snd s') < i" for i
  proof -
    have "lvl i ns' = []" using hs that by (auto simp: lvl_def filter_empty_conv)
    then show ?thesis using inv_level(1) [OF s'(2), of i] by simp
  qed
  have nl: "h \<le> level (snd s')"
    if b: "bounded s ns" and a: "a \<in> set (map e_addr ns')"
      and n: "node_level (cells (fst s') a) = Inr h" for a h
  proof -
    from a obtain e where e: "e \<in> set ns'" "a = e_addr e" by auto
    have d: "dom (nxt (cells (fst s') a)) \<subseteq> {..level (snd s')}"
      using s'(4) b e by (cases s') (simp add: bounded_def)
    then have f: "finite (dom (nxt (cells (fst s') a)))" by (rule finite_subset) simp
    have ne: "dom (nxt (cells (fst s') a)) \<noteq> {}" and m: "h = Max (dom (nxt (cells (fst s') a)))"
      using n by (auto simp: node_level_def split: if_splits)
    have "h \<in> dom (nxt (cells (fst s') a))" unfolding m by (rule Max_in [OF f ne])
    then show ?thesis using d by auto
  qed
  show ?thesis using s'(1,3) p top nl by blast
qed

theorem level_bounds_heights_witness:
  "\<exists>s' as. run [Delete 24, Insert 3 30 ''30!'', Delete 30] example_list = Some (Inr s') \<and>
           path (cells (fst s')) 0 (head (snd s')) as \<and>
           level (snd s') = 3 \<and>
           (\<forall>i. level (snd s') < i \<longrightarrow> path (cells (fst s')) i (head (snd s')) []) \<and>
           (\<forall>a\<in>set as. \<forall>h. node_level (cells (fst s') a) = Inr h \<longrightarrow> h \<le> level (snd s'))"
proof -
  have b: "bounded example_list example_entries"
    by (simp add: bounded_def example_list_def example_entries_def)
  have l: "level_after [Delete 24, Insert 3 30 ''30!'', Delete 30] (level (snd example_list)) = 3"
    by (simp add: example_list_def)
  show ?thesis
    using level_bounds_heights [OF inv_example_list, of "[Delete 24, Insert 3 30 ''30!'', Delete 30]"] b
    unfolding l by blast
qed

text \<open>
  Counterexample to C5 as stated: after \<open>insert(5, ''a'')\<close> and \<open>insert(5, ''b'')\<close> on the empty
  list, both at height 0, the keys along level 0 are 5, 5.
\<close>

theorem keys_strictly_increasing_counterexample:
  "\<not> (\<forall>xs s i as ks. run xs (empty_list :: (int, string) heap \<times> SkipList) = Some (Inr s) \<longrightarrow>
        path (cells (fst s)) i (head (snd s)) as \<longrightarrow>
        map (key_at (cells (fst s))) as = map Some ks \<longrightarrow>
        sorted_wrt (<) ks)"
proof
  assume a: "\<forall>xs s i as ks. run xs (empty_list :: (int, string) heap \<times> SkipList) = Some (Inr s) \<longrightarrow>
        path (cells (fst s)) i (head (snd s)) as \<longrightarrow>
        map (key_at (cells (fst s))) as = map Some ks \<longrightarrow>
        sorted_wrt (<) ks"
  have "\<exists>s. run [Insert 0 (5::int) ''a'', Insert 0 5 ''b''] empty_list = Some (Inr s) \<and>
          path (cells (fst s)) 0 (head (snd s)) [2, 1] \<and>
          map (key_at (cells (fst s))) [2, 1] = map Some [5, 5]"
    by (simp add: run_eval key_at_def)
  then obtain s where s: "run [Insert 0 (5::int) ''a'', Insert 0 5 ''b''] empty_list = Some (Inr s)"
    "path (cells (fst s)) 0 (head (snd s)) [2, 1]"
    "map (key_at (cells (fst s))) [2, 1] = map Some [5, 5]"
    by blast
  from a s have "sorted_wrt (<) [5::int, 5]" by blast
  then show False by simp
qed

text \<open>
  C5, amended: in every list reached from a well-formed one, the keys along every level are in
  nondecreasing order; they are strictly increasing when the keys at the start are pairwise different
  and no \<open>insert\<close> has a key that is present at that moment.
\<close>

theorem keys_sorted_every_level:
  assumes "inv s ns"
  shows "\<exists>s'. run xs s = Some (Inr s') \<and>
           (\<forall>i. \<exists>as ks. path (cells (fst s')) i (head (snd s')) as \<and>
                   map (key_at (cells (fst s'))) as = map Some ks \<and>
                   sorted ks \<and>
                   (distinct (map e_key ns) \<and> fresh_keys xs (e_key ` set ns) \<longrightarrow> sorted_wrt (<) ks))"
proof -
  define ns' where "ns' = snd (abs_run xs (free (fst s), ns))"
  from run_inv [OF assms(1), of xs] obtain s' where
    s': "run xs s = Some (Inr s')" "inv s' ns'"
    unfolding ns'_def by blast
  have so: "sorted (map e_key (lvl i ns'))" for i
    by (rule sorted_lvl [OF inv_sorted [OF s'(2)]])
  have st: "sorted_wrt (<) (map e_key (lvl i ns'))"
    if "distinct (map e_key ns)" "fresh_keys xs (e_key ` set ns)" for i
  proof -
    have "distinct (map e_key ns')"
      unfolding ns'_def by (rule run_strict(1) [OF assms that s'(1)])
    then have "distinct (map e_key (lvl i ns'))" by (simp add: lvl_def distinct_map_filter)
    then show ?thesis using so [of i] by (simp add: strict_sorted_iff)
  qed
  have "\<exists>as ks. path (cells (fst s')) i (head (snd s')) as \<and>
                   map (key_at (cells (fst s'))) as = map Some ks \<and>
                   sorted ks \<and>
                   (distinct (map e_key ns) \<and> fresh_keys xs (e_key ` set ns) \<longrightarrow> sorted_wrt (<) ks)" for i
    using inv_level [OF s'(2), of i] so [of i] st [of i]
    by (intro exI [of _ "map e_addr (lvl i ns')"] exI [of _ "map e_key (lvl i ns')"]) blast
  then show ?thesis using s'(1) by blast
qed

theorem keys_sorted_every_level_witness:
  "\<exists>s'. run [Insert 1 14 ''14'', Delete 5, Insert 2 5 ''five''] example_list = Some (Inr s') \<and>
           (\<forall>i. \<exists>as ks. path (cells (fst s')) i (head (snd s')) as \<and>
                   map (key_at (cells (fst s'))) as = map Some ks \<and>
                   sorted ks \<and> sorted_wrt (<) ks)"
proof -
  have "distinct (map e_key example_entries) \<and>
        fresh_keys [Insert 1 14 ''14'', Delete 5, Insert 2 5 ''five''] (e_key ` set example_entries)"
    by (simp add: example_entries_def)
  then show ?thesis
    using keys_sorted_every_level [OF inv_example_list, of "[Insert 1 14 ''14'', Delete 5, Insert 2 5 ''five'']"]
    by simp
qed

text \<open>
  C6: in every list reached from a well-formed one, the chain of level \<open>i + 1\<close> is a subsequence
  of the chain of level \<open>i\<close>, and every node of every level is in the chain of level 0.
\<close>

theorem subset_property_preserved:
  assumes "inv s ns"
  shows "\<exists>s' as0. run xs s = Some (Inr s') \<and>
           path (cells (fst s')) 0 (head (snd s')) as0 \<and>
           (\<forall>i. \<exists>as bs. path (cells (fst s')) i (head (snd s')) as \<and>
                   path (cells (fst s')) (Suc i) (head (snd s')) bs \<and>
                   subseq bs as \<and> set as \<subseteq> set as0)"
proof -
  define ns' where "ns' = snd (abs_run xs (free (fst s), ns))"
  from run_inv [OF assms(1), of xs] obtain s' where
    s': "run xs s = Some (Inr s')" "inv s' ns'"
    unfolding ns'_def by blast
  have p: "path (cells (fst s')) i (head (snd s')) (map e_addr (lvl i ns'))" for i
    by (rule inv_level(1) [OF s'(2)])
  have "lvl (Suc i) ns' = filter (\<lambda>e. Suc i \<le> e_height e) (lvl i ns')" for i
    by (auto simp: lvl_def intro: filter_cong)
  then have sq: "subseq (map e_addr (lvl (Suc i) ns')) (map e_addr (lvl i ns'))" for i
    by (simp add: subseq_map)
  have su: "set (map e_addr (lvl i ns')) \<subseteq> set (map e_addr ns')" for i
    by (auto simp: lvl_def)
  have "\<exists>as bs. path (cells (fst s')) i (head (snd s')) as \<and>
                   path (cells (fst s')) (Suc i) (head (snd s')) bs \<and>
                   subseq bs as \<and> set as \<subseteq> set (map e_addr ns')" for i
    using p [of i] p [of "Suc i"] sq [of i] su [of i] by blast
  then show ?thesis using s'(1) p [of 0] by (intro exI [of _ s'] exI [of _ "map e_addr ns'"]) simp
qed

theorem subset_property_preserved_witness:
  "\<exists>s' as0. run [Insert 1 14 ''14'', Insert 3 14 ''again'', Delete 5] example_list = Some (Inr s') \<and>
           path (cells (fst s')) 0 (head (snd s')) as0 \<and>
           (\<forall>i. \<exists>as bs. path (cells (fst s')) i (head (snd s')) as \<and>
                   path (cells (fst s')) (Suc i) (head (snd s')) bs \<and>
                   subseq bs as \<and> set as \<subseteq> set as0)"
  by (rule subset_property_preserved [OF inv_example_list])

lemma del_key_ins_entry:
  assumes "sorted (map e_key ns)" "e_key e \<notin> e_key ` set ns"
  shows "del_key (e_key e) (ins_entry e ns) = ns"
proof -
  from ins_entry_split [OF assms(1), of e] obtain b a where
    s: "ns = b @ a" "ins_entry e ns = b @ e # a" by blast
  have "\<forall>x\<in>set ns. e_key x \<noteq> e_key e" using assms(2) by (auto simp: image_iff)
  then have "del_key (e_key e) ns = ns" by (simp add: del_key_def)
  moreover have "del_key (e_key e) (b @ e # a) = del_key (e_key e) (b @ a)"
    by (simp add: del_key_def)
  ultimately show ?thesis using s by simp
qed

text \<open>
  C7: on a well-formed list without the key \<open>k\<close>, \<open>insert(k, v)\<close> at any height followed by
  \<open>delete(k)\<close> gives back the \<open>size\<close> and, at every level, the chain of nodes with their keys.
\<close>

theorem insert_then_delete_restores:
  assumes "inv s ns"
    and "path (cells (fst s)) 0 (head (snd s)) as0"
    and "Some k \<notin> key_at (cells (fst s)) ` set as0"
  shows "\<exists>s1 s2. insert_key h k v s = Some (Inr s1) \<and> delete_key k s1 = Some (Inr s2) \<and>
           len (snd s2) = len (snd s) \<and>
           (\<forall>i. \<exists>as. path (cells (fst s)) i (head (snd s)) as \<and>
                   path (cells (fst s2)) i (head (snd s2)) as \<and>
                   map (key_at (cells (fst s2))) as = map (key_at (cells (fst s))) as)"
proof -
  define e where "e = Entry (free (fst s)) h k v"
  have ab: "k \<notin> e_key ` set ns"
    using assms(3) inv_absent [OF assms(1,2)] by auto
  from insert_key_state [OF assms(1), of h k v] obtain s1 where
    s1: "insert_key h k v s = Some (Inr s1)" "inv s1 (ins_entry e ns)"
      "size_sl (snd s1) = size_sl (snd s) + 1"
    unfolding e_def by blast
  have ke: "k \<in> e_key ` set (ins_entry e ns)" by (simp add: set_ins_entry_any e_def)
  from delete_key_state [OF s1(2), of k] ke obtain s2 where
    s2: "delete_key k s1 = Some (Inr s2)" "inv s2 (del_key k (ins_entry e ns))"
      "size_sl (snd s2) = size_sl (snd s1) - 1"
    by auto
  have "del_key k (ins_entry e ns) = ns"
    using del_key_ins_entry [OF inv_sorted [OF assms(1)], of e] ab by (simp add: e_def)
  then have i2: "inv s2 ns" using s2(2) by simp
  have "\<exists>as. path (cells (fst s)) i (head (snd s)) as \<and>
                   path (cells (fst s2)) i (head (snd s2)) as \<and>
                   map (key_at (cells (fst s2))) as = map (key_at (cells (fst s))) as" for i
    using inv_level [OF assms(1), of i] inv_level [OF i2, of i]
    by (intro exI [of _ "map e_addr (lvl i ns)"]) simp
  moreover have "len (snd s2) = len (snd s)" using s1(3) s2(3) by (simp add: len_def)
  ultimately show ?thesis using s1(1) s2(1) by blast
qed

theorem insert_then_delete_restores_witness:
  "\<exists>s1 s2. insert_key 6 14 ''my value'' example_list = Some (Inr s1) \<and> delete_key 14 s1 = Some (Inr s2) \<and>
           len (snd s2) = 7 \<and>
           (\<forall>i. \<exists>as. path (cells (fst example_list)) i (head (snd example_list)) as \<and>
                   path (cells (fst s2)) i (head (snd s2)) as \<and>
                   map (key_at (cells (fst s2))) as = map (key_at (cells (fst example_list))) as)"
proof -
  have p: "path (cells (fst example_list)) 0 (head (snd example_list)) [1, 2, 3, 4, 5, 6, 7]"
    by (simp add: example_list_def get_def)
  have k: "Some 14 \<notin> key_at (cells (fst example_list)) ` set [1, 2, 3, 4, 5, 6, 7]"
    by (simp add: example_list_def key_at_def)
  have l: "len (snd example_list) = 7" by (simp add: example_list_def len_def)
  show ?thesis
    using insert_then_delete_restores [OF inv_example_list p k, of 6 "''my value''"] l by simp
qed

text \<open>
  C8: on a well-formed list, \<open>delete(k)\<close> of a key that no node of level 0 has returns the same
  store and the same list record, and for every key a second \<open>delete(k)\<close> changes nothing.
\<close>

theorem delete_absent_is_noop:
  assumes "inv s ns"
    and "path (cells (fst s)) 0 (head (snd s)) as0"
  shows "(Some k \<notin> key_at (cells (fst s)) ` set as0 \<longrightarrow> delete_key k s = Some (Inr s)) \<and>
         (\<exists>s'. delete_key k s = Some (Inr s') \<and> delete_key k s' = Some (Inr s'))"
proof -
  from delete_key_state [OF assms(1), of k] obtain s' where
    s': "delete_key k s = Some (Inr s')" "inv s' (del_key k ns)"
      "k \<notin> e_key ` set ns \<longrightarrow> s' = s"
    by blast
  have "k \<notin> e_key ` set (del_key k ns)" by (auto simp: del_key_def)
  then have "delete_key k s' = Some (Inr s')"
    using delete_key_state [OF s'(2), of k] by auto
  moreover have "Some k \<notin> key_at (cells (fst s)) ` set as0 \<longrightarrow> delete_key k s = Some (Inr s)"
    using s'(1,3) inv_absent [OF assms] by auto
  ultimately show ?thesis using s'(1) by blast
qed

theorem delete_absent_is_noop_witness:
  "delete_key 100 example_list = Some (Inr example_list) \<and>
   (\<exists>s'. delete_key 15 example_list = Some (Inr s') \<and> delete_key 15 s' = Some (Inr s'))"
proof -
  have p: "path (cells (fst example_list)) 0 (head (snd example_list)) [1, 2, 3, 4, 5, 6, 7]"
    by (simp add: example_list_def get_def)
  have k: "Some 100 \<notin> key_at (cells (fst example_list)) ` set [1, 2, 3, 4, 5, 6, 7]"
    by (simp add: example_list_def key_at_def)
  show ?thesis
    using delete_absent_is_noop [OF inv_example_list p, of 100]
      delete_absent_is_noop [OF inv_example_list p, of 15] k by blast
qed

text \<open>
  C9: on a well-formed list, \<open>insert(k, v)\<close> with the height \<open>h\<close> links a new node with that
  pair whose \<open>level\<close> property is \<open>h\<close>, and the list's \<open>level\<close> becomes the maximum of its
  former value and \<open>h\<close>.
\<close>

theorem insert_fixed_height:
  assumes "inv s ns"
  shows "\<exists>s' as. insert_key h k v s = Some (Inr s') \<and>
           pair (cells (fst s') (free (fst s))) = Some \<lparr>key = k, val = v\<rparr> \<and>
           node_level (cells (fst s') (free (fst s))) = Inr h \<and>
           path (cells (fst s')) 0 (head (snd s')) as \<and> free (fst s) \<in> set as \<and>
           level (snd s') = max (level (snd s)) h"
proof -
  define e where "e = Entry (free (fst s)) h k v"
  from insert_key_state [OF assms(1), of h k v] obtain s' where
    s': "insert_key h k v s = Some (Inr s')" "inv s' (ins_entry e ns)"
      "dom (nxt (cells (fst s') (free (fst s)))) = {..h}"
      "level (snd s') = max (level (snd s)) h"
    unfolding e_def by blast
  have m: "e \<in> set (ins_entry e ns)" by (simp add: set_ins_entry_any)
  then have "holds (cells (fst s')) e" using s'(2) by (cases s') (simp add: inv_def)
  then have pr: "pair (cells (fst s') (free (fst s))) = Some \<lparr>key = k, val = v\<rparr>"
    by (simp add: holds_def e_def)
  have p: "path (cells (fst s')) 0 (head (snd s')) (map e_addr (ins_entry e ns))"
    using inv_level(1) [OF s'(2), of 0] by simp
  have "free (fst s) \<in> set (map e_addr (ins_entry e ns))"
    using m by (force simp: e_def)
  then show ?thesis using s'(1,4) pr node_level_atMost [OF s'(3)] p by blast
qed

theorem insert_fixed_height_witness:
  "\<exists>s' as. insert_key 6 14 ''my value'' example_list = Some (Inr s') \<and>
           pair (cells (fst s') 8) = Some \<lparr>key = 14, val = ''my value''\<rparr> \<and>
           node_level (cells (fst s') 8) = Inr 6 \<and>
           path (cells (fst s')) 0 (head (snd s')) as \<and> 8 \<in> set as \<and>
           level (snd s') = 6"
  using insert_fixed_height [OF inv_example_list, of 6 14 "''my value''"]
  by (simp add: example_list_def)

text \<open>
  C10: in every list reached from a well-formed one, \<open>delete(k)\<close> leaves no node with the key
  \<open>k\<close> in the chain of any level, whatever the number of nodes that had it, and the lookup of
  \<open>k\<close> then raises \<open>KeyError\<close>.
\<close>

theorem delete_then_lookup_fails:
  assumes "inv s ns"
  shows "\<exists>s1 s2. run xs s = Some (Inr s1) \<and> delete_key k s1 = Some (Inr s2) \<and>
           getitem s2 k = Some (Inl (KeyError k)) \<and>
           (\<forall>i. \<exists>as. path (cells (fst s2)) i (head (snd s2)) as \<and>
                   Some k \<notin> key_at (cells (fst s2)) ` set as)"
proof -
  define ns1 where "ns1 = snd (abs_run xs (free (fst s), ns))"
  from run_inv [OF assms(1), of xs] obtain s1 where
    s1: "run xs s = Some (Inr s1)" "inv s1 ns1"
    unfolding ns1_def by blast
  from delete_key_state [OF s1(2), of k] obtain s2 where
    s2: "delete_key k s1 = Some (Inr s2)" "inv s2 (del_key k ns1)"
    by blast
  have ab: "k \<notin> e_key ` set (del_key k ns1)" by (auto simp: del_key_def)
  have g: "getitem s2 k = Some (Inl (KeyError k))"
    using getitem_inv' [OF s2(2), of k] ab by auto
  have "\<exists>as. path (cells (fst s2)) i (head (snd s2)) as \<and>
                   Some k \<notin> key_at (cells (fst s2)) ` set as" for i
  proof -
    have "set (map (key_at (cells (fst s2))) (map e_addr (lvl i (del_key k ns1)))) =
          set (map Some (map e_key (lvl i (del_key k ns1))))"
      using inv_level(2) [OF s2(2), of i] by simp
    then have "key_at (cells (fst s2)) ` set (map e_addr (lvl i (del_key k ns1))) =
          Some ` e_key ` set (lvl i (del_key k ns1))"
      by (simp add: image_image)
    moreover have "k \<notin> e_key ` set (lvl i (del_key k ns1))"
      using ab by (auto simp: lvl_def)
    ultimately show ?thesis
      using inv_level(1) [OF s2(2), of i]
      by (intro exI [of _ "map e_addr (lvl i (del_key k ns1))"]) auto
  qed
  then show ?thesis using s1(1) s2(1) g by blast
qed

theorem delete_then_lookup_fails_witness:
  "\<exists>s1 s2. run [Insert 1 (5::int) ''a'', Insert 0 5 ''b'', Insert 3 5 ''c'', Insert 0 7 ''d''] empty_list = Some (Inr s1) \<and>
           delete_key 5 s1 = Some (Inr s2) \<and>
           getitem s2 5 = Some (Inl (KeyError 5)) \<and>
           (\<forall>i. \<exists>as. path (cells (fst s2)) i (head (snd s2)) as \<and>
                   Some 5 \<notin> key_at (cells (fst s2)) ` set as)"
  by (rule delete_then_lookup_fails [OF inv_empty_list])

end
